theory Spec2Isabelle
  imports Complex_Main "HOL-Library.Multiset"
begin

section \<open>Errors and the random source\<close>

text \<open>
  The notebook raises no exception of its own. The exceptions that can escape it are
  Python's: an \<open>IndexError\<close> from indexing a list out of range or from \<open>choice\<close> on an
  empty sequence (the two carry different messages), a \<open>ValueError\<close> from a slice whose
  step is zero, and an \<open>AttributeError\<close> from reading \<open>infectious_end\<close> before it was
  ever assigned.
\<close>

datatype error = IndexError string | ValueError string | AttributeError string

definition list_index_out_of_range :: error where
  "list_index_out_of_range = IndexError ''list index out of range''"

definition cannot_choose_from_empty :: error where
  "cannot_choose_from_empty = IndexError ''Cannot choose from an empty sequence''"

definition slice_step_zero :: error where
  "slice_step_zero = ValueError ''slice step cannot be zero''"

definition no_infectious_end :: error where
  "no_infectious_end = AttributeError ''infectious_end''"

text \<open>
  All randomness comes from the module \<open>random\<close>, whose generator is process-wide state.
  The generator is modelled by the sequence of raw values it is going to produce and the
  number of values already consumed. The three library functions the notebook imports
  are modelled by their documented behaviour on top of one raw value per call:
  \<open>random()\<close> is a multiple of \<open>2^-53\<close> in \<open>[0, 1)\<close>, \<open>uniform(a, b)\<close> is
  \<open>a + (b - a) * random()\<close> (in exact arithmetic), \<open>choice(seq)\<close> is \<open>seq[randbelow(len(seq))]\<close>
  and raises on an empty sequence, and \<open>shuffle(x)\<close> is the in-place Fisher-Yates loop
  \<open>for i in reversed(range(1, len(x))): j = randbelow(i + 1); x[i], x[j] = x[j], x[i]\<close>.
\<close>

record rng =
  draws :: "nat \<Rightarrow> nat"
  pos :: nat

definition next_raw :: "rng \<Rightarrow> nat \<times> rng" where
  "next_raw g = (draws g (pos g), g\<lparr>pos := Suc (pos g)\<rparr>)"

definition random_py :: "rng \<Rightarrow> rat \<times> rng" where
  "random_py g = (let (r, g') = next_raw g in (of_nat (r mod 2 ^ 53) / 2 ^ 53, g'))"

definition uniform :: "rat \<Rightarrow> rat \<Rightarrow> rng \<Rightarrow> rat \<times> rng" where
  "uniform a b g = (let (u, g') = random_py g in (a + (b - a) * u, g'))"

definition randbelow :: "nat \<Rightarrow> rng \<Rightarrow> nat \<times> rng" where
  "randbelow n g = (let (r, g') = next_raw g in (r mod n, g'))"

definition choice :: "'a list \<Rightarrow> rng \<Rightarrow> error + ('a \<times> rng)" where
  "choice seq g =
     (if seq = [] then Inl cannot_choose_from_empty
      else (let (i, g') = randbelow (length seq) g in Inr (seq ! i, g')))"

definition swap :: "'a list \<Rightarrow> nat \<Rightarrow> nat \<Rightarrow> 'a list" where
  "swap xs i j = xs[i := xs ! j, j := xs ! i]"

fun shuffle_from :: "nat \<Rightarrow> 'a list \<Rightarrow> rng \<Rightarrow> 'a list \<times> rng" where
  "shuffle_from 0 xs g = (xs, g)"
| "shuffle_from (Suc i) xs g =
     (let (j, g') = randbelow (Suc i + 1) g in shuffle_from i (swap xs (Suc i) j) g')"

definition shuffle :: "'a list \<Rightarrow> rng \<Rightarrow> 'a list \<times> rng" where
  "shuffle xs g = shuffle_from (length xs - 1) xs g"

text \<open>Python's \<open>round\<close> with one argument: to the nearest integer, ties to the even one.\<close>

definition py_round :: "rat \<Rightarrow> int" where
  "py_round x =
     (let f = \<lfloor>x\<rfloor>; d = x - of_int f
      in if d < 1 / 2 then f else if 1 / 2 < d then f + 1 else if even f then f else f + 1)"

section \<open>The notebook's helper and the student agent\<close>

definition bernoulli :: "rat \<Rightarrow> rng \<Rightarrow> bool \<times> rng" where
  "bernoulli prob g = (let (u, g') = uniform 0 1 g in (u < prob, g'))"

definition generate_infectious_time :: "rng \<Rightarrow> int \<times> rng" where
  "generate_infectious_time g = (let (u, g') = uniform 7 10 g in (py_round u, g'))"

datatype State = HEALTHY | INFECTIOUS | IMMUNE

text \<open>The values the enumeration gives its members.\<close>

fun State_value :: "State \<Rightarrow> nat" where
  "State_value HEALTHY = 1"
| "State_value INFECTIOUS = 2"
| "State_value IMMUNE = 3"

text \<open>
  \<open>infected\<close> is the attribute \<open>_infected\<close>. \<open>infectious_end\<close> is not set by the constructor:
  \<open>None\<close> is the attribute not existing yet.
\<close>

record StudentAgent =
  state :: State
  infected :: bool
  infectious_end :: "int option"

definition StudentAgent_init :: StudentAgent where
  "StudentAgent_init = \<lparr>state = HEALTHY, infected = False, infectious_end = None\<rparr>"

definition simulate_disease :: "StudentAgent \<Rightarrow> int \<Rightarrow> rng \<Rightarrow> error + (StudentAgent \<times> rng)" where
  "simulate_disease a day g =
     (if state a = HEALTHY then
        (if infected a then
           (let (t, g') = generate_infectious_time g
            in Inr (a\<lparr>state := INFECTIOUS, infectious_end := Some (day + t)\<rparr>, g'))
         else Inr (a, g))
      else if state a = INFECTIOUS then
        (case infectious_end a of
           None \<Rightarrow> Inl no_infectious_end
         | Some e \<Rightarrow> (if day = e then Inr (a\<lparr>state := IMMUNE\<rparr>, g) else Inr (a, g)))
      else Inr (a, g))"

definition infect :: "StudentAgent \<Rightarrow> StudentAgent" where
  "infect a = a\<lparr>infected := True\<rparr>"

definition infectious :: "StudentAgent \<Rightarrow> bool" where
  "infectious a = (state a = INFECTIOUS)"

definition have_been_sick :: "StudentAgent \<Rightarrow> bool" where
  "have_been_sick a = (state a \<noteq> HEALTHY)"

text \<open>
  A history of one agent: any sequence of calls of \<open>infect\<close> and of \<open>simulate_disease\<close>
  (each with its day), stopping at the first exception.
\<close>

datatype agent_op = Infect | Simulate int

fun apply_op :: "agent_op \<Rightarrow> StudentAgent \<times> rng \<Rightarrow> error + (StudentAgent \<times> rng)" where
  "apply_op Infect (a, g) = Inr (infect a, g)"
| "apply_op (Simulate day) (a, g) = simulate_disease a day g"

fun apply_ops :: "agent_op list \<Rightarrow> StudentAgent \<times> rng \<Rightarrow> error + (StudentAgent \<times> rng)" where
  "apply_ops [] ag = Inr ag"
| "apply_ops (x # xs) ag =
     (case apply_op x ag of Inl e \<Rightarrow> Inl e | Inr ag' \<Rightarrow> apply_ops xs ag')"

section \<open>Apartments, contagion and classrooms\<close>

text \<open>
  Agents are objects: the list \<open>students\<close>, the classroom lists and the occupant lists
  of the apartments all hold references to the same \<open>StudentAgent\<close> objects. The model
  keeps the objects in a store indexed by the order of their creation, and the lists hold
  these indices.
\<close>

type_synonym agent_ref = nat

type_synonym store = "agent_ref \<Rightarrow> StudentAgent"

record Apartment =
  occupants :: "agent_ref list"
  capacity :: nat

definition Apartment_init :: "nat \<Rightarrow> Apartment" where
  "Apartment_init c = \<lparr>occupants = [], capacity = c\<rparr>"

definition add_occupant :: "Apartment \<Rightarrow> agent_ref \<Rightarrow> Apartment" where
  "add_occupant a occupant = a\<lparr>occupants := occupants a @ [occupant]\<rparr>"

definition is_full :: "Apartment \<Rightarrow> bool" where
  "is_full a = (length (occupants a) = capacity a)"

datatype Days = MONDAY | TUESDAY | WEDNESDAY | THURSDAY | FRIDAY | SATURDAY | SUNDAY

definition Days_members :: "Days list" where
  "Days_members = [MONDAY, TUESDAY, WEDNESDAY, THURSDAY, FRIDAY, SATURDAY, SUNDAY]"

text \<open>
  \<open>randomly_infect\<close>: the inner loop over \<open>agent2\<close> for one \<open>agent1\<close>, then the outer loop.
  Both loops run over the same list \<open>group\<close>; each test reads the store as it is then.
\<close>

fun randomly_infect_inner ::
  "agent_ref \<Rightarrow> agent_ref list \<Rightarrow> rat \<Rightarrow> store \<times> rng \<Rightarrow> store \<times> rng" where
  "randomly_infect_inner agent1 [] prob (s, g) = (s, g)"
| "randomly_infect_inner agent1 (agent2 # rest) prob (s, g) =
     (if infectious (s agent1) \<and> \<not> infectious (s agent2) then
        (let (b, g') = bernoulli prob g
         in if b then randomly_infect_inner agent1 rest prob (s(agent2 := infect (s agent2)), g')
            else randomly_infect_inner agent1 rest prob (s, g'))
      else randomly_infect_inner agent1 rest prob (s, g))"

fun randomly_infect_outer ::
  "agent_ref list \<Rightarrow> agent_ref list \<Rightarrow> rat \<Rightarrow> store \<times> rng \<Rightarrow> store \<times> rng" where
  "randomly_infect_outer [] grp prob sg = sg"
| "randomly_infect_outer (agent1 # rest) grp prob sg =
     randomly_infect_outer rest grp prob (randomly_infect_inner agent1 grp prob sg)"

definition randomly_infect :: "agent_ref list \<Rightarrow> rat \<Rightarrow> store \<times> rng \<Rightarrow> store \<times> rng" where
  "randomly_infect grp prob sg = randomly_infect_outer grp grp prob sg"

text \<open>
  The slice \<open>xs[i::k]\<close> for \<open>i \<ge> 0\<close> and \<open>k > 0\<close>: the elements at the positions
  \<open>i, i + k, i + 2 k, ...\<close> below the length.
\<close>

definition slice_from_step :: "'a list \<Rightarrow> nat \<Rightarrow> nat \<Rightarrow> 'a list" where
  "slice_from_step xs i k = map (\<lambda>j. xs ! j) (filter (\<lambda>j. (j - i) mod k = 0) [i..<length xs])"

text \<open>
  \<open>assign_to_classrooms\<close> shuffles the list it is given in place, so it returns the
  shuffled list beside the classrooms. Its slices step by \<open>K\<close>, which is not one of its
  parameters: the name resolves to the module-level variable \<open>K\<close> (a cell of the notebook
  binds it to 100). The model takes that variable as its first argument \<open>K_global\<close>.
  The slices are evaluated only when \<open>range(number_of_classrooms)\<close> is not empty.
\<close>

definition assign_to_classrooms ::
  "nat \<Rightarrow> agent_ref list \<Rightarrow> nat \<Rightarrow> rng \<Rightarrow> error + (agent_ref list list \<times> agent_ref list \<times> rng)" where
  "assign_to_classrooms K_global students number_of_classrooms g =
     (let (students', g') = shuffle students g
      in if number_of_classrooms = 0 then Inr ([], students', g')
         else if K_global = 0 then Inl slice_step_zero
         else Inr (map (\<lambda>i. slice_from_step students' i K_global) [0..<number_of_classrooms],
                   students', g'))"

section \<open>The main simulation loop\<close>

text \<open>\<open>for i in range(10): students[i].infect()\<close>\<close>

fun infect_first :: "nat list \<Rightarrow> agent_ref list \<Rightarrow> store \<Rightarrow> error + store" where
  "infect_first [] students s = Inr s"
| "infect_first (i # rest) students s =
     (if i < length students
      then infect_first rest students (s(students ! i := infect (s (students ! i))))
      else Inl list_index_out_of_range)"

text \<open>
  The allocation loop. \<open>choice\<close> returns a reference to one of the apartment objects,
  which \<open>add_occupant\<close> then mutates: the model chooses among the positions of the
  apartments with space and updates the list of apartments at the chosen position.
\<close>

fun allocate ::
  "agent_ref list \<Rightarrow> Apartment list \<Rightarrow> rng \<Rightarrow> error + (Apartment list \<times> rng)" where
  "allocate [] apartments g = Inr (apartments, g)"
| "allocate (student # rest) apartments g =
     (let apartments_with_space =
            filter (\<lambda>i. \<not> is_full (apartments ! i)) [0..<length apartments]
      in case choice apartments_with_space g of
           Inl e \<Rightarrow> Inl e
         | Inr (i, g') \<Rightarrow>
             allocate rest (apartments[i := add_occupant (apartments ! i) student]) g')"

text \<open>
  Everything \<open>run_simulation\<close> does before its first day: create the agents and the
  apartments, mark ten agents, shuffle the list of students, allocate the apartments.
\<close>

definition initialise ::
  "nat \<Rightarrow> nat \<Rightarrow> nat \<Rightarrow> rng \<Rightarrow> error + (agent_ref list \<times> store \<times> Apartment list \<times> rng)" where
  "initialise N M B g =
     (let students = [0..<N];
          apartments = replicate M (Apartment_init B)
      in case infect_first [0..<10] students (\<lambda>_. StudentAgent_init) of
           Inl e \<Rightarrow> Inl e
         | Inr s \<Rightarrow>
             (let (students', g') = shuffle students g
              in case allocate students' apartments g' of
                   Inl e \<Rightarrow> Inl e
                 | Inr (apartments', g'') \<Rightarrow> Inr (students', s, apartments', g'')))"

text \<open>The state the loop over the days carries.\<close>

record sim =
  students :: "agent_ref list"
  agents :: store
  gen :: rng
  infected_count :: "nat list"
  sick_count :: "nat list"
  day_number :: int

fun randomly_infect_each :: "agent_ref list list \<Rightarrow> rat \<Rightarrow> store \<times> rng \<Rightarrow> store \<times> rng" where
  "randomly_infect_each [] prob sg = sg"
| "randomly_infect_each (grp # rest) prob sg =
     randomly_infect_each rest prob (randomly_infect grp prob sg)"

text \<open>\<open>for agent in students: agent.simulate_disease(day_number)\<close>\<close>

fun simulate_each :: "agent_ref list \<Rightarrow> int \<Rightarrow> store \<times> rng \<Rightarrow> error + (store \<times> rng)" where
  "simulate_each [] day sg = Inr sg"
| "simulate_each (agent # rest) day (s, g) =
     (case simulate_disease (s agent) day g of
        Inl e \<Rightarrow> Inl e
      | Inr (a', g') \<Rightarrow> simulate_each rest day (s(agent := a'), g'))"

text \<open>The morning of one day: the classrooms, on weekdays only.\<close>

definition classroom_phase :: "nat \<Rightarrow> nat \<Rightarrow> rat \<Rightarrow> Days \<Rightarrow> sim \<Rightarrow> error + sim" where
  "classroom_phase K_global K q day st =
     (if day \<notin> set [SATURDAY, SUNDAY] then
        (case assign_to_classrooms K_global (students st) K (gen st) of
           Inl e \<Rightarrow> Inl e
         | Inr (classrooms, students', g') \<Rightarrow>
             (let (s, g'') = randomly_infect_each classrooms q (agents st, g')
              in Inr (st\<lparr>students := students', agents := s, gen := g''\<rparr>)))
      else Inr st)"

text \<open>The evening: the apartments.\<close>

definition apartment_phase :: "Apartment list \<Rightarrow> rat \<Rightarrow> sim \<Rightarrow> sim" where
  "apartment_phase apartments p st =
     (let (s, g) = randomly_infect_each (map occupants apartments) p (agents st, gen st)
      in st\<lparr>agents := s, gen := g\<rparr>)"

text \<open>The two counts of the day, taken over the list of students.\<close>

definition record_counts :: "sim \<Rightarrow> sim" where
  "record_counts st =
     st\<lparr>infected_count :=
          infected_count st @ [length (filter (\<lambda>a. infectious (agents st a)) (students st))],
        sick_count :=
          sick_count st @ [length (filter (\<lambda>a. have_been_sick (agents st a)) (students st))]\<rparr>"

definition advance_agents :: "sim \<Rightarrow> error + sim" where
  "advance_agents st =
     (let d = day_number st + 1
      in case simulate_each (students st) d (agents st, gen st) of
           Inl e \<Rightarrow> Inl e
         | Inr (s, g) \<Rightarrow> Inr (st\<lparr>agents := s, gen := g, day_number := d\<rparr>))"

definition simulate_day ::
  "nat \<Rightarrow> Apartment list \<Rightarrow> nat \<Rightarrow> rat \<Rightarrow> rat \<Rightarrow> Days \<Rightarrow> sim \<Rightarrow> error + sim" where
  "simulate_day K_global apartments K p q day st =
     (case classroom_phase K_global K q day st of
        Inl e \<Rightarrow> Inl e
      | Inr st1 \<Rightarrow> advance_agents (record_counts (apartment_phase apartments p st1)))"

fun simulate_days ::
  "nat \<Rightarrow> Apartment list \<Rightarrow> nat \<Rightarrow> rat \<Rightarrow> rat \<Rightarrow> Days list \<Rightarrow> sim \<Rightarrow> error + sim" where
  "simulate_days K_global apartments K p q [] st = Inr st"
| "simulate_days K_global apartments K p q (day # rest) st =
     (case simulate_day K_global apartments K p q day st of
        Inl e \<Rightarrow> Inl e
      | Inr st' \<Rightarrow> simulate_days K_global apartments K p q rest st')"

text \<open>\<open>np.diff\<close> of a list of counts.\<close>

fun np_diff :: "nat list \<Rightarrow> int list" where
  "np_diff (x # y # rest) = (int y - int x) # np_diff (y # rest)"
| "np_diff _ = []"

text \<open>\<open>for week in range(12): for day in Days: ...\<close>\<close>

definition calendar :: "Days list" where
  "calendar = concat (replicate 12 Days_members)"

text \<open>
  \<open>run_simulation\<close>. Its parameters are \<open>N, M, B, K, p, q\<close>; the first argument of the
  model is the module-level \<open>K\<close> that \<open>assign_to_classrooms\<close> reads, the last one the state
  of the generator. The result is the tuple the function returns. The counts \<open>N, M, B, K\<close>
  and the module-level \<open>K\<close> are natural numbers, as in the notebook, where they are
  non-negative integer literals; the probabilities are rational numbers, which every
  float is.
\<close>

definition run_simulation ::
  "nat \<Rightarrow> nat \<Rightarrow> nat \<Rightarrow> nat \<Rightarrow> nat \<Rightarrow> rat \<Rightarrow> rat \<Rightarrow> rng
   \<Rightarrow> error + (nat \<times> nat list \<times> int list \<times> nat list \<times> int list)" where
  "run_simulation K_global N M B K p q g =
     (case initialise N M B g of
        Inl e \<Rightarrow> Inl e
      | Inr (students0, s0, apartments, g0) \<Rightarrow>
          (case simulate_days K_global apartments K p q calendar
                  \<lparr>students = students0, agents = s0, gen = g0,
                   infected_count = [], sick_count = [], day_number = 0\<rparr> of
             Inl e \<Rightarrow> Inl e
           | Inr st \<Rightarrow>
               (if sick_count st = [] then Inl list_index_out_of_range
                else Inr (last (sick_count st),
                          infected_count st, np_diff (infected_count st),
                          sick_count st, np_diff (sick_count st)))))"

section \<open>Concrete inputs\<close>

text \<open>A generator whose raw values are all zero, and two agents used in the examples below.\<close>

definition rng0 :: rng where
  "rng0 = \<lparr>draws = (\<lambda>_. 0), pos = 0\<rparr>"

definition seeded_agent :: StudentAgent where
  "seeded_agent = infect StudentAgent_init"

definition immune_agent :: StudentAgent where
  "immune_agent = \<lparr>state = IMMUNE, infected = True, infectious_end = Some 8\<rparr>"

section \<open>Auxiliary notions\<close>

text \<open>
  The contagion step as the specification words it: whether a pair is tried is decided
  from the store as it was when the call was entered (the snapshot \<open>s0\<close>), while the marks
  go to the current store.
\<close>

fun propagate_inner ::
  "store \<Rightarrow> agent_ref \<Rightarrow> agent_ref list \<Rightarrow> rat \<Rightarrow> store \<times> rng \<Rightarrow> store \<times> rng" where
  "propagate_inner s0 agent1 [] prob (s, g) = (s, g)"
| "propagate_inner s0 agent1 (agent2 # rest) prob (s, g) =
     (if infectious (s0 agent1) \<and> \<not> infectious (s0 agent2) then
        (let (b, g') = bernoulli prob g
         in if b then propagate_inner s0 agent1 rest prob (s(agent2 := infect (s agent2)), g')
            else propagate_inner s0 agent1 rest prob (s, g'))
      else propagate_inner s0 agent1 rest prob (s, g))"

fun propagate_outer ::
  "store \<Rightarrow> agent_ref list \<Rightarrow> agent_ref list \<Rightarrow> rat \<Rightarrow> store \<times> rng \<Rightarrow> store \<times> rng" where
  "propagate_outer s0 [] grp prob sg = sg"
| "propagate_outer s0 (agent1 # rest) grp prob sg =
     propagate_outer s0 rest grp prob (propagate_inner s0 agent1 grp prob sg)"

definition propagate_from_entry :: "agent_ref list \<Rightarrow> rat \<Rightarrow> store \<times> rng \<Rightarrow> store \<times> rng" where
  "propagate_from_entry grp prob sg = propagate_outer (fst sg) grp grp prob sg"

text \<open>The ordered pairs of a group that are tried, read off a store.\<close>

definition trial_pairs :: "store \<Rightarrow> agent_ref list \<Rightarrow> (agent_ref \<times> agent_ref) list" where
  "trial_pairs s grp =
     filter (\<lambda>(a1, a2). infectious (s a1) \<and> \<not> infectious (s a2)) (List.product grp grp)"

text \<open>A store that differs from another one by calls of \<open>infect\<close> only.\<close>

definition only_infects :: "store \<Rightarrow> store \<Rightarrow> bool" where
  "only_infects s s' = (\<forall>a. s' a = s a \<or> s' a = infect (s a))"

text \<open>The store right after the ten calls of \<open>infect\<close>: the first ten agents created are marked.\<close>

definition seeded_store :: store where
  "seeded_store = (\<lambda>a. if a < 10 then infect StudentAgent_init else StudentAgent_init)"

text \<open>The number of occupants of all apartments together.\<close>

definition housed :: "Apartment list \<Rightarrow> nat" where
  "housed apartments = sum_list (map (\<lambda>a. length (occupants a)) apartments)"

text \<open>Every apartment has capacity \<open>B\<close> and holds at most \<open>B\<close> occupants.\<close>

definition within_capacity :: "nat \<Rightarrow> Apartment list \<Rightarrow> bool" where
  "within_capacity B apartments =
     list_all (\<lambda>a. capacity a = B \<and> length (occupants a) \<le> B) apartments"

text \<open>
  Every infectious agent of the store has its \<open>infectious_end\<close>: what the constructor and
  the methods of \<open>StudentAgent\<close> maintain.
\<close>

definition ends_set :: "store \<Rightarrow> bool" where
  "ends_set s = (\<forall>a. state (s a) = INFECTIOUS \<longrightarrow> infectious_end (s a) \<noteq> None)"

text \<open>The two counts that \<open>run_simulation\<close> appends each day, read off a state of the loop.\<close>

definition infectious_now :: "sim \<Rightarrow> nat" where
  "infectious_now st = length (filter (\<lambda>a. infectious (agents st a)) (students st))"

definition sick_now :: "sim \<Rightarrow> nat" where
  "sick_now st = length (filter (\<lambda>a. have_been_sick (agents st a)) (students st))"

text \<open>
  What holds of the two series between two days: the cumulative series is sorted and
  bounded by the present number of agents that have been sick, and it dominates the
  series of the infectious counts entry by entry.
\<close>

definition series_ok :: "sim \<Rightarrow> bool" where
  "series_ok st =
     (sorted (sick_count st) \<and> list_all (\<lambda>c. c \<le> sick_now st) (sick_count st)
      \<and> list_all2 (\<le>) (infected_count st) (sick_count st))"

text \<open>
  Two states of the generator from which the same raw values are going to come, and two
  states of the loop over the days that differ at most in such generator states.
\<close>

definition same_future :: "rng \<Rightarrow> rng \<Rightarrow> bool" where
  "same_future g1 g2 = (\<forall>i. draws g1 (pos g1 + i) = draws g2 (pos g2 + i))"



section \<open>The disease automaton\<close>

lemma simulate_disease_step:
  assumes "simulate_disease a day g = Inr (a', g')"
  shows "state a' = state a \<or> (state a = HEALTHY \<and> state a' = INFECTIOUS)
         \<or> (state a = INFECTIOUS \<and> state a' = IMMUNE)"
  using assms
  by (auto simp: simulate_disease_def split: if_splits option.splits prod.splits)

lemma apply_op_step:
  assumes "apply_op x (a, g) = Inr (a', g')"
  shows "state a' = state a \<or> (state a = HEALTHY \<and> state a' = INFECTIOUS)
         \<or> (state a = INFECTIOUS \<and> state a' = IMMUNE)"
proof (cases x)
  case Infect
  with assms show ?thesis by (auto simp: infect_def)
next
  case (Simulate day)
  with assms show ?thesis using simulate_disease_step[of a day g a' g'] by simp
qed

lemma apply_ops_State_value:
  "apply_ops xs (a, g) = Inr (a', g') \<Longrightarrow> State_value (state a) \<le> State_value (state a')"
proof (induction xs arbitrary: a g)
  case Nil
  then show ?case by simp
next
  case (Cons x xs)
  from Cons.prems obtain a1 g1 where
    one: "apply_op x (a, g) = Inr (a1, g1)" and rest: "apply_ops xs (a1, g1) = Inr (a', g')"
    by (auto split: sum.splits)
  from apply_op_step[OF one] have "State_value (state a) \<le> State_value (state a1)"
    by auto
  with Cons.IH[OF rest] show ?case by simp
qed

lemma simulate_disease_IMMUNE: "state a = IMMUNE \<Longrightarrow> simulate_disease a day g = Inr (a, g)"
  by (simp add: simulate_disease_def)

lemma apply_ops_IMMUNE:
  "state a = IMMUNE \<Longrightarrow> \<exists>a'. apply_ops xs (a, g) = Inr (a', g) \<and> state a' = IMMUNE"
proof (induction xs arbitrary: a)
  case Nil
  then show ?case by simp
next
  case (Cons x xs)
  show ?case
  proof (cases x)
    case Infect
    have "state (infect a) = IMMUNE" using Cons.prems by (simp add: infect_def)
    from Cons.IH[OF this] show ?thesis using Infect by simp
  next
    case (Simulate day)
    from Cons.IH[OF Cons.prems] show ?thesis
      using Simulate Cons.prems by (simp add: simulate_disease_IMMUNE)
  qed
qed

text \<open>
  Claim C6. Whatever the agent and whatever the sequence of calls of \<open>infect\<close> and
  \<open>simulate_disease\<close>: one call leaves the disease state where it is or moves it from
  HEALTHY to INFECTIOUS or from INFECTIOUS to IMMUNE; over a whole sequence the state never
  moves backward; and an IMMUNE agent is left unchanged by \<open>simulate_disease\<close>, stays
  IMMUNE under every further sequence of calls, none of which raises or draws a random
  number, and \<open>have_been_sick\<close> stays true.
\<close>

theorem disease_state_only_moves_forward:
  "(apply_op x (a, g) = Inr (a1, g1) \<longrightarrow>
      state a1 = state a \<or> (state a = HEALTHY \<and> state a1 = INFECTIOUS)
      \<or> (state a = INFECTIOUS \<and> state a1 = IMMUNE))
   \<and> (apply_ops xs (a, g) = Inr (a2, g2) \<longrightarrow> State_value (state a) \<le> State_value (state a2))
   \<and> (state a = IMMUNE \<longrightarrow>
        simulate_disease a day g = Inr (a, g)
        \<and> (\<exists>a3. apply_ops xs (a, g) = Inr (a3, g) \<and> state a3 = IMMUNE \<and> have_been_sick a3))"
proof (intro conjI impI)
  assume "apply_op x (a, g) = Inr (a1, g1)"
  then show "state a1 = state a \<or> (state a = HEALTHY \<and> state a1 = INFECTIOUS)
      \<or> (state a = INFECTIOUS \<and> state a1 = IMMUNE)"
    by (rule apply_op_step)
next
  assume "apply_ops xs (a, g) = Inr (a2, g2)"
  then show "State_value (state a) \<le> State_value (state a2)"
    by (rule apply_ops_State_value)
next
  assume "state a = IMMUNE"
  then show "simulate_disease a day g = Inr (a, g)"
    by (rule simulate_disease_IMMUNE)
next
  assume "state a = IMMUNE"
  from apply_ops_IMMUNE[OF this, of xs g]
  show "\<exists>a3. apply_ops xs (a, g) = Inr (a3, g) \<and> state a3 = IMMUNE \<and> have_been_sick a3"
    by (auto simp: have_been_sick_def)
qed

lemma generate_infectious_time_rng0:
  "generate_infectious_time rng0 = (7, rng0\<lparr>pos := 1\<rparr>)"
  by (simp add: generate_infectious_time_def uniform_def random_py_def next_raw_def rng0_def
      py_round_def)

lemma seeded_agent_history:
  "apply_ops [Simulate 1, Infect, Simulate 8] (seeded_agent, rng0) = Inr (immune_agent, rng0\<lparr>pos := 1\<rparr>)"
  by (simp add: seeded_agent_def immune_agent_def infect_def StudentAgent_init_def
      simulate_disease_def generate_infectious_time_rng0)

theorem disease_state_only_moves_forward_witness:
  "apply_op (Simulate 1) (seeded_agent, rng0)
     = Inr (\<lparr>state = INFECTIOUS, infected = True, infectious_end = Some 8\<rparr>, rng0\<lparr>pos := 1\<rparr>)
   \<and> apply_ops [Simulate 1, Infect, Simulate 8] (seeded_agent, rng0)
       = Inr (immune_agent, rng0\<lparr>pos := 1\<rparr>)
   \<and> State_value (state seeded_agent) \<le> State_value (state immune_agent)
   \<and> state immune_agent = IMMUNE
   \<and> simulate_disease immune_agent 9 rng0 = Inr (immune_agent, rng0)
   \<and> (\<exists>a3. apply_ops [Infect, Simulate 9] (immune_agent, rng0) = Inr (a3, rng0)
            \<and> state a3 = IMMUNE \<and> have_been_sick a3)"
proof -
  have one: "apply_op (Simulate 1) (seeded_agent, rng0)
     = Inr (\<lparr>state = INFECTIOUS, infected = True, infectious_end = Some 8\<rparr>, rng0\<lparr>pos := 1\<rparr>)"
    by (simp add: seeded_agent_def infect_def StudentAgent_init_def
        simulate_disease_def generate_infectious_time_rng0)
  have imm: "state immune_agent = IMMUNE" by (simp add: immune_agent_def)
  note hist = seeded_agent_history
  from disease_state_only_moves_forward
         [of "Simulate 1" seeded_agent rng0 _ _ "[Simulate 1, Infect, Simulate 8]"
             immune_agent "rng0\<lparr>pos := 1\<rparr>" 9] hist
  have mono: "State_value (state seeded_agent) \<le> State_value (state immune_agent)"
    by blast
  from disease_state_only_moves_forward
         [of "Simulate 9" immune_agent rng0 _ _ "[Infect, Simulate 9]" _ _ 9] imm
  have fixed: "simulate_disease immune_agent 9 rng0 = Inr (immune_agent, rng0)
        \<and> (\<exists>a3. apply_ops [Infect, Simulate 9] (immune_agent, rng0) = Inr (a3, rng0)
            \<and> state a3 = IMMUNE \<and> have_been_sick a3)"
    by blast
  from one hist mono imm fixed show ?thesis by blast
qed

section \<open>The contagion step\<close>

lemma only_infects_refl: "only_infects s s"
  by (simp add: only_infects_def)

lemma infect_infect: "infect (infect a) = infect a"
  by (simp add: infect_def)

lemma only_infects_trans: "only_infects s s1 \<Longrightarrow> only_infects s1 s2 \<Longrightarrow> only_infects s s2"
  unfolding only_infects_def
  by (metis infect_infect)

lemma only_infects_upd: "only_infects s (s(a := infect (s a)))"
  by (simp add: only_infects_def)

lemma only_infects_state: "only_infects s s' \<Longrightarrow> state (s' a) = state (s a)"
  unfolding only_infects_def
  by (metis infect_def StudentAgent.select_convs(1) StudentAgent.surjective
      StudentAgent.update_convs(2))

lemma only_infects_infectious: "only_infects s s' \<Longrightarrow> infectious (s' a) = infectious (s a)"
  by (simp add: infectious_def only_infects_state)

lemma only_infects_have_been_sick:
  "only_infects s s' \<Longrightarrow> have_been_sick (s' a) = have_been_sick (s a)"
  by (simp add: have_been_sick_def only_infects_state)

lemma bernoulli_rng: "snd (bernoulli prob g) = g\<lparr>pos := Suc (pos g)\<rparr>"
  by (simp add: bernoulli_def uniform_def random_py_def next_raw_def split: prod.splits)

lemma propagate_inner_only_infects:
  "only_infects s (fst (propagate_inner s0 a1 xs prob (s, g)))"
proof (induction xs arbitrary: s g)
  case Nil
  show ?case by (simp add: only_infects_refl)
next
  case (Cons a2 xs)
  show ?case
  proof (cases "infectious (s0 a1) \<and> \<not> infectious (s0 a2)")
    case False
    then show ?thesis using Cons.IH[of s g] by auto
  next
    case True
    obtain b g' where b: "bernoulli prob g = (b, g')" by (cases "bernoulli prob g")
    show ?thesis
    proof (cases b)
      case True
      have "only_infects (s(a2 := infect (s a2)))
              (fst (propagate_inner s0 a1 xs prob (s(a2 := infect (s a2)), g')))"
        by (rule Cons.IH)
      with only_infects_upd[of s a2] have
        "only_infects s (fst (propagate_inner s0 a1 xs prob (s(a2 := infect (s a2)), g')))"
        by (rule only_infects_trans)
      with \<open>infectious (s0 a1) \<and> \<not> infectious (s0 a2)\<close> b True show ?thesis by simp
    next
      case False
      with \<open>infectious (s0 a1) \<and> \<not> infectious (s0 a2)\<close> b Cons.IH[of s g'] show ?thesis
        by simp
    qed
  qed
qed

lemma propagate_outer_only_infects:
  "only_infects s (fst (propagate_outer s0 ys grp prob (s, g)))"
proof (induction ys arbitrary: s g)
  case Nil
  show ?case by (simp add: only_infects_refl)
next
  case (Cons a1 ys)
  obtain s1 g1 where one: "propagate_inner s0 a1 grp prob (s, g) = (s1, g1)"
    by (cases "propagate_inner s0 a1 grp prob (s, g)")
  have "only_infects s s1"
    using propagate_inner_only_infects[of s s0 a1 grp prob g] one by simp
  moreover have "only_infects s1 (fst (propagate_outer s0 ys grp prob (s1, g1)))"
    by (rule Cons.IH)
  ultimately show ?case using one by (simp add: only_infects_trans)
qed

text \<open>The loops of the source read the current store; the tests come out as on the snapshot.\<close>

lemma randomly_infect_inner_snapshot:
  "only_infects s0 s \<Longrightarrow>
   randomly_infect_inner a1 xs prob (s, g) = propagate_inner s0 a1 xs prob (s, g)"
proof (induction xs arbitrary: s g)
  case Nil
  show ?case by simp
next
  case (Cons a2 xs)
  have same: "infectious (s a1) = infectious (s0 a1)" "infectious (s a2) = infectious (s0 a2)"
    using Cons.prems by (simp_all add: only_infects_infectious)
  have upd: "only_infects s0 (s(a2 := infect (s a2)))"
    using Cons.prems only_infects_upd[of s a2] by (rule only_infects_trans)
  show ?case
  proof (cases "infectious (s0 a1) \<and> \<not> infectious (s0 a2)")
    case False
    have "randomly_infect_inner a1 (a2 # xs) prob (s, g) = randomly_infect_inner a1 xs prob (s, g)"
      using False same by auto
    moreover have "propagate_inner s0 a1 (a2 # xs) prob (s, g) = propagate_inner s0 a1 xs prob (s, g)"
      using False by auto
    ultimately show ?thesis using Cons.IH[OF Cons.prems] by simp
  next
    case True
    obtain b g' where b: "bernoulli prob g = (b, g')" by (cases "bernoulli prob g")
    have L: "randomly_infect_inner a1 (a2 # xs) prob (s, g) =
        (if b then randomly_infect_inner a1 xs prob (s(a2 := infect (s a2)), g')
         else randomly_infect_inner a1 xs prob (s, g'))"
      using True same b by simp
    have R: "propagate_inner s0 a1 (a2 # xs) prob (s, g) =
        (if b then propagate_inner s0 a1 xs prob (s(a2 := infect (s a2)), g')
         else propagate_inner s0 a1 xs prob (s, g'))"
      using True b by simp
    show ?thesis
      unfolding L R using Cons.IH[OF upd, of g'] Cons.IH[OF Cons.prems, of g'] by presburger
  qed
qed

lemma randomly_infect_outer_snapshot:
  "only_infects s0 s \<Longrightarrow>
   randomly_infect_outer ys grp prob (s, g) = propagate_outer s0 ys grp prob (s, g)"
proof (induction ys arbitrary: s g)
  case Nil
  show ?case by simp
next
  case (Cons a1 ys)
  obtain s1 g1 where one: "propagate_inner s0 a1 grp prob (s, g) = (s1, g1)"
    by (cases "propagate_inner s0 a1 grp prob (s, g)")
  have "only_infects s s1"
    using propagate_inner_only_infects[of s s0 a1 grp prob g] one by simp
  with Cons.prems have "only_infects s0 s1" by (rule only_infects_trans)
  from Cons.IH[OF this] show ?case
    using one randomly_infect_inner_snapshot[OF Cons.prems, of a1 grp prob g] by simp
qed

lemma randomly_infect_snapshot:
  "randomly_infect grp prob (s, g) = propagate_from_entry grp prob (s, g)"
  by (simp add: randomly_infect_def propagate_from_entry_def
      randomly_infect_outer_snapshot[OF only_infects_refl])

lemma randomly_infect_only_infects: "only_infects s (fst (randomly_infect grp prob (s, g)))"
  by (simp add: randomly_infect_snapshot propagate_from_entry_def propagate_outer_only_infects)

text \<open>One random number is drawn for each tried pair, and for nothing else.\<close>

lemma propagate_inner_rng:
  "snd (propagate_inner s0 a1 xs prob (s, g))
     = g\<lparr>pos := pos g + length (filter (\<lambda>a2. infectious (s0 a1) \<and> \<not> infectious (s0 a2)) xs)\<rparr>"
proof (induction xs arbitrary: s g)
  case Nil
  show ?case by simp
next
  case (Cons a2 xs)
  show ?case
  proof (cases "infectious (s0 a1) \<and> \<not> infectious (s0 a2)")
    case False
    then show ?thesis using Cons.IH[of s g] by auto
  next
    case True
    obtain b g' where b: "bernoulli prob g = (b, g')" by (cases "bernoulli prob g")
    then have g': "g' = g\<lparr>pos := Suc (pos g)\<rparr>" using bernoulli_rng[of prob g] by simp
    show ?thesis
      by (cases b) (simp_all add: True b g' Cons.IH)
  qed
qed

lemma propagate_outer_rng:
  "snd (propagate_outer s0 ys grp prob (s, g))
     = g\<lparr>pos := pos g + length (filter (\<lambda>(a1, a2). infectious (s0 a1) \<and> \<not> infectious (s0 a2))
                                    (List.product ys grp))\<rparr>"
proof (induction ys arbitrary: s g)
  case Nil
  show ?case by simp
next
  case (Cons a1 ys)
  obtain s1 g1 where one: "propagate_inner s0 a1 grp prob (s, g) = (s1, g1)"
    by (cases "propagate_inner s0 a1 grp prob (s, g)")
  then have g1: "g1 = g\<lparr>pos := pos g
      + length (filter (\<lambda>a2. infectious (s0 a1) \<and> \<not> infectious (s0 a2)) grp)\<rparr>"
    using propagate_inner_rng[of s0 a1 grp prob s g] by simp
  have len: "length (filter (\<lambda>(a1, a2). infectious (s0 a1) \<and> \<not> infectious (s0 a2))
                (map (Pair a1) grp))
             = length (filter (\<lambda>a2. infectious (s0 a1) \<and> \<not> infectious (s0 a2)) grp)"
    by (simp add: filter_map o_def)
  show ?case
    using one g1 Cons.IH[of s1 g1] len by (simp add: add.assoc)
qed

text \<open>
  Claim C8. One call of \<open>randomly_infect\<close> computes what the contagion step computes
  when every test of infectiousness is made on the store as it was at call entry; it
  changes the disease state of no agent; and it draws one random number for each ordered
  pair of the group whose first member was infectious at entry and whose second was not,
  and no other. So an agent marked during the call is the source of no trial in it.
\<close>

theorem randomly_infect_sources_fixed_at_entry:
  "randomly_infect grp prob (s, g) = propagate_from_entry grp prob (s, g)
   \<and> (\<forall>a. state (fst (randomly_infect grp prob (s, g)) a) = state (s a))
   \<and> snd (randomly_infect grp prob (s, g)) = g\<lparr>pos := pos g + length (trial_pairs s grp)\<rparr>"
proof (intro conjI allI)
  show "randomly_infect grp prob (s, g) = propagate_from_entry grp prob (s, g)"
    by (rule randomly_infect_snapshot)
next
  fix a
  show "state (fst (randomly_infect grp prob (s, g)) a) = state (s a)"
    using randomly_infect_only_infects[of s grp prob g] by (rule only_infects_state)
next
  show "snd (randomly_infect grp prob (s, g)) = g\<lparr>pos := pos g + length (trial_pairs s grp)\<rparr>"
    by (simp add: randomly_infect_snapshot propagate_from_entry_def propagate_outer_rng
        trial_pairs_def)
qed

section \<open>Seeding, shuffling and housing\<close>

lemma infect_first_raises:
  "\<exists>i\<in>set is. \<not> i < length sts \<Longrightarrow> infect_first is sts s = Inl list_index_out_of_range"
  by (induction "is" arbitrary: s) auto

lemma infect_first_upt:
  "\<forall>i\<in>set is. i < N \<Longrightarrow>
   infect_first is [0..<N] s = Inr (\<lambda>a. if a \<in> set is then infect (s a) else s a)"
proof (induction "is" arbitrary: s)
  case Nil
  show ?case by simp
next
  case (Cons i "is")
  have i: "i < N" "[0..<N] ! i = i" using Cons.prems by simp_all
  have rest: "\<forall>i\<in>set is. i < N" using Cons.prems by simp
  have "infect_first (i # is) [0..<N] s = infect_first is [0..<N] (s(i := infect (s i)))"
    using i by simp
  also have "\<dots> = Inr (\<lambda>a. if a \<in> set is then infect ((s(i := infect (s i))) a)
                           else (s(i := infect (s i))) a)"
    by (rule Cons.IH[OF rest])
  also have "(\<lambda>a. if a \<in> set is then infect ((s(i := infect (s i))) a)
                           else (s(i := infect (s i))) a)
      = (\<lambda>a. if a \<in> set (i # is) then infect (s a) else s a)"
    by (rule ext) (simp add: infect_infect)
  finally show ?case .
qed

lemma infect_first_ten:
  "infect_first [0..<10] [0..<N] (\<lambda>_. StudentAgent_init)
     = (if 10 \<le> N then Inr seeded_store else Inl list_index_out_of_range)"
proof (cases "10 \<le> N")
  case True
  then have all: "\<forall>i\<in>set [0..<10]. i < N" by auto
  have "(\<lambda>a. if a \<in> set [0..<10] then infect StudentAgent_init else StudentAgent_init)
          = seeded_store"
    by (rule ext) (simp add: seeded_store_def del: upt_Suc)
  then show ?thesis
    using True infect_first_upt[OF all, of "\<lambda>_. StudentAgent_init"] by simp
next
  case False
  then have "\<exists>i\<in>set [0..<10]. \<not> i < length [0..<N]" by (auto intro!: bexI[of _ 9])
  then show ?thesis using False by (simp only: infect_first_raises if_False)
qed

lemma randbelow_less: "0 < n \<Longrightarrow> fst (randbelow n g) < n"
  by (simp add: randbelow_def next_raw_def)

lemma mset_swap_list: "i < length xs \<Longrightarrow> j < length xs \<Longrightarrow> mset (swap xs i j) = mset xs"
  unfolding swap_def by (simp add: mset_swap)

lemma length_swap: "length (swap xs i j) = length xs"
  by (simp add: swap_def)

lemma shuffle_from_mset:
  "i < length xs \<Longrightarrow> mset (fst (shuffle_from i xs g)) = mset xs"
proof (induction i arbitrary: xs g)
  case 0
  show ?case by simp
next
  case (Suc i)
  obtain j g' where j: "randbelow (Suc i + 1) g = (j, g')" by (cases "randbelow (Suc i + 1) g")
  have "j < Suc i + 1" using randbelow_less[of "Suc i + 1" g] j by simp
  then have jl: "j < length xs" using Suc.prems by simp
  have "mset (swap xs (Suc i) j) = mset xs" using Suc.prems jl by (rule mset_swap_list)
  moreover have "mset (fst (shuffle_from i (swap xs (Suc i) j) g')) = mset (swap xs (Suc i) j)"
    using Suc.prems by (intro Suc.IH) (simp add: length_swap)
  ultimately show ?case using j by simp
qed

lemma shuffle_mset: "mset (fst (shuffle xs g)) = mset xs"
proof (cases xs)
  case Nil
  then show ?thesis by (simp add: shuffle_def)
next
  case (Cons x ys)
  then have "length xs - 1 < length xs" by simp
  then show ?thesis unfolding shuffle_def by (rule shuffle_from_mset)
qed

lemma shuffle_length: "length (fst (shuffle xs g)) = length xs"
  using shuffle_mset[of xs g] by (metis size_mset)

lemma shuffle_set: "set (fst (shuffle xs g)) = set xs"
  using shuffle_mset[of xs g] by (metis set_mset_mset)

lemma shuffle_distinct: "distinct (fst (shuffle xs g)) = distinct xs"
  using shuffle_mset[of xs g] by (metis distinct_count_atmost_1 set_mset_mset)


lemma choice_raises: "choice [] g = Inl cannot_choose_from_empty"
  by (simp add: choice_def)

lemma choice_member:
  assumes "xs \<noteq> []"
  shows "\<exists>x g'. choice xs g = Inr (x, g') \<and> x \<in> set xs"
proof -
  obtain i g' where i: "randbelow (length xs) g = (i, g')" by (cases "randbelow (length xs) g")
  have "i < length xs" using randbelow_less[of "length xs" g] assms i by simp
  then show ?thesis using assms i by (simp add: choice_def)
qed

lemma housed_Cons: "housed (a # as) = length (occupants a) + housed as"
  by (simp add: housed_def)

lemma within_capacity_Cons:
  "within_capacity B (a # as)
     = (capacity a = B \<and> length (occupants a) \<le> B \<and> within_capacity B as)"
  by (simp add: within_capacity_def)

lemma housed_le: "within_capacity B as \<Longrightarrow> housed as \<le> length as * B"
proof (induction as)
  case Nil
  show ?case by (simp add: housed_def)
next
  case (Cons a as)
  then show ?case by (simp add: housed_Cons within_capacity_Cons)
qed

lemma all_full_iff:
  "within_capacity B as \<Longrightarrow> list_all is_full as = (housed as = length as * B)"
proof (induction as)
  case Nil
  show ?case by (simp add: housed_def)
next
  case (Cons a as)
  have cap: "capacity a = B" "length (occupants a) \<le> B" and rest: "within_capacity B as"
    using Cons.prems by (simp_all add: within_capacity_Cons)
  have le: "housed as \<le> length as * B" using rest by (rule housed_le)
  have "(length (occupants a) = B \<and> housed as = length as * B)
          = (length (occupants a) + housed as = B + length as * B)"
    using cap(2) le by linarith
  then show ?case using Cons.IH[OF rest] cap(1) by (simp add: housed_Cons is_full_def)
qed

lemma no_space_iff:
  "(filter (\<lambda>i. \<not> is_full (as ! i)) [0..<length as] = []) = list_all is_full as"
  by (auto simp: filter_empty_conv list_all_length)

lemma housed_add_occupant:
  "i < length as \<Longrightarrow> housed (as[i := add_occupant (as ! i) x]) = Suc (housed as)"
proof (induction as arbitrary: i)
  case Nil
  then show ?case by simp
next
  case (Cons a as)
  then show ?case by (cases i) (simp_all add: housed_Cons add_occupant_def)
qed

lemma occupants_add_occupant:
  "i < length as \<Longrightarrow>
   mset (concat (map occupants (as[i := add_occupant (as ! i) x])))
     = add_mset x (mset (concat (map occupants as)))"
proof (induction as arbitrary: i)
  case Nil
  then show ?case by simp
next
  case (Cons a as)
  then show ?case by (cases i) (simp_all add: add_occupant_def)
qed

lemma within_capacity_add_occupant:
  assumes "within_capacity B as" "i < length as" "\<not> is_full (as ! i)"
  shows "within_capacity B (as[i := add_occupant (as ! i) x])"
proof -
  have old: "capacity (as ! i) = B" "length (occupants (as ! i)) \<le> B"
    using assms(1,2) by (simp_all add: within_capacity_def list_all_length)
  then have "length (occupants (as ! i)) < B" using assms(3) by (simp add: is_full_def)
  then have new: "capacity (add_occupant (as ! i) x) = B"
    "length (occupants (add_occupant (as ! i) x)) \<le> B"
    using old by (simp_all add: add_occupant_def)
  show ?thesis
    unfolding within_capacity_def list_all_length
  proof (intro allI impI)
    fix n assume "n < length (as[i := add_occupant (as ! i) x])"
    then have n: "n < length as" by simp
    show "capacity (as[i := add_occupant (as ! i) x] ! n) = B \<and>
          length (occupants (as[i := add_occupant (as ! i) x] ! n)) \<le> B"
    proof (cases "n = i")
      case True
      then show ?thesis using new n by simp
    next
      case False
      then show ?thesis using assms(1) n by (simp add: within_capacity_def list_all_length)
    qed
  qed
qed

text \<open>One round of the allocation loop, when some apartment has space.\<close>

lemma allocate_step:
  assumes "within_capacity B as" "housed as < length as * B"
  shows "\<exists>i g'. i < length as \<and> \<not> is_full (as ! i)
           \<and> allocate (x # xs) as g = allocate xs (as[i := add_occupant (as ! i) x]) g'"
proof -
  let ?space = "filter (\<lambda>i. \<not> is_full (as ! i)) [0..<length as]"
  have "\<not> list_all is_full as" using assms by (simp add: all_full_iff)
  then have "?space \<noteq> []" by (simp add: no_space_iff)
  from choice_member[OF this, of g] obtain i g' where
    c: "choice ?space g = Inr (i, g')" and i: "i \<in> set ?space" by blast
  from i have "i < length as \<and> \<not> is_full (as ! i)" by simp
  moreover have "allocate (x # xs) as g = allocate xs (as[i := add_occupant (as ! i) x]) g'"
    using c by simp
  ultimately show ?thesis by blast
qed

lemma allocate_succeeds:
  "within_capacity B as \<Longrightarrow> housed as + length xs \<le> length as * B \<Longrightarrow>
   \<exists>as' g'. allocate xs as g = Inr (as', g') \<and> length as' = length as
     \<and> within_capacity B as'
     \<and> mset (concat (map occupants as')) = mset (concat (map occupants as)) + mset xs"
proof (induction xs arbitrary: as g)
  case Nil
  then show ?case by simp
next
  case (Cons x xs)
  have "housed as < length as * B" using Cons.prems(2) by simp
  from allocate_step[OF Cons.prems(1) this, of x xs g] obtain i g1 where
    i: "i < length as" "\<not> is_full (as ! i)" and
    step: "allocate (x # xs) as g = allocate xs (as[i := add_occupant (as ! i) x]) g1"
    by blast
  let ?as1 = "as[i := add_occupant (as ! i) x]"
  have wc: "within_capacity B ?as1"
    using Cons.prems(1) i by (rule within_capacity_add_occupant)
  have room: "housed ?as1 + length xs \<le> length ?as1 * B"
    using Cons.prems(2) i(1) by (simp add: housed_add_occupant)
  from Cons.IH[OF wc room, of g1] obtain as' g' where
    r: "allocate xs ?as1 g1 = Inr (as', g')" "length as' = length ?as1"
       "within_capacity B as'"
       "mset (concat (map occupants as')) = mset (concat (map occupants ?as1)) + mset xs"
    by blast
  have "mset (concat (map occupants as')) = mset (concat (map occupants as)) + mset (x # xs)"
    using r(4) i(1) by (simp add: occupants_add_occupant)
  then show ?case using step r(1,2,3) by simp
qed

lemma allocate_raises:
  "within_capacity B as \<Longrightarrow> length as * B < housed as + length xs \<Longrightarrow>
   allocate xs as g = Inl cannot_choose_from_empty"
proof (induction xs arbitrary: as g)
  case Nil
  then show ?case using housed_le[of B as] by simp
next
  case (Cons x xs)
  show ?case
  proof (cases "housed as < length as * B")
    case True
    from allocate_step[OF Cons.prems(1) True, of x xs g] obtain i g1 where
      i: "i < length as" "\<not> is_full (as ! i)" and
      step: "allocate (x # xs) as g = allocate xs (as[i := add_occupant (as ! i) x]) g1"
      by blast
    let ?as1 = "as[i := add_occupant (as ! i) x]"
    have wc: "within_capacity B ?as1"
      using Cons.prems(1) i by (rule within_capacity_add_occupant)
    have over: "length ?as1 * B < housed ?as1 + length xs"
      using Cons.prems(2) i(1) by (simp add: housed_add_occupant)
    show ?thesis using step Cons.IH[OF wc over, of g1] by simp
  next
    case False
    then have "housed as = length as * B" using housed_le[OF Cons.prems(1)] by simp
    then have "list_all is_full as" using Cons.prems(1) by (simp add: all_full_iff)
    then have "filter (\<lambda>i. \<not> is_full (as ! i)) [0..<length as] = []"
      by (simp add: no_space_iff)
    then show ?thesis by (simp add: choice_raises)
  qed
qed

lemma empty_apartments:
  "within_capacity B (replicate M (Apartment_init B))"
  "housed (replicate M (Apartment_init B)) = 0"
  "concat (map occupants (replicate M (Apartment_init B))) = []"
  by (induction M) (simp_all add: within_capacity_def housed_def Apartment_init_def)

section \<open>Before the first day\<close>

lemma initialise_small: "N < 10 \<Longrightarrow> initialise N M B g = Inl list_index_out_of_range"
  by (simp add: initialise_def infect_first_ten)

lemma initialise_allocate:
  "10 \<le> N \<Longrightarrow>
   initialise N M B g =
     (case allocate (fst (shuffle [0..<N] g)) (replicate M (Apartment_init B))
             (snd (shuffle [0..<N] g)) of
        Inl e \<Rightarrow> Inl e
      | Inr (as, g') \<Rightarrow> Inr (fst (shuffle [0..<N] g), seeded_store, as, g'))"
  by (simp add: initialise_def infect_first_ten split: prod.splits sum.splits)

lemma initialise_overfull:
  assumes "10 \<le> N" "M * B < N"
  shows "initialise N M B g = Inl cannot_choose_from_empty"
proof -
  let ?as = "replicate M (Apartment_init B)"
  have "length ?as * B < housed ?as + length (fst (shuffle [0..<N] g))"
    using assms(2) by (simp add: empty_apartments shuffle_length)
  from allocate_raises[OF empty_apartments(1) this]
  show ?thesis using assms(1) by (simp add: initialise_allocate)
qed

lemma initialise_succeeds:
  assumes "10 \<le> N" "N \<le> M * B"
  shows "\<exists>sts as g'. initialise N M B g = Inr (sts, seeded_store, as, g')
           \<and> mset sts = mset [0..<N] \<and> length as = M \<and> within_capacity B as
           \<and> mset (concat (map occupants as)) = mset sts"
proof -
  let ?as = "replicate M (Apartment_init B)"
  let ?sts = "fst (shuffle [0..<N] g)"
  have "housed ?as + length ?sts \<le> length ?as * B"
    using assms(2) by (simp add: empty_apartments shuffle_length)
  from allocate_succeeds[OF empty_apartments(1) this, of "snd (shuffle [0..<N] g)"]
  obtain as g' where
    a: "allocate ?sts ?as (snd (shuffle [0..<N] g)) = Inr (as, g')"
       "length as = length ?as" "within_capacity B as"
       "mset (concat (map occupants as)) = mset (concat (map occupants ?as)) + mset ?sts"
    by blast
  have "initialise N M B g = Inr (?sts, seeded_store, as, g')"
    using assms(1) a(1) by (simp add: initialise_allocate)
  moreover have "mset ?sts = mset [0..<N]" by (rule shuffle_mset)
  moreover have "mset (concat (map occupants as)) = mset ?sts"
    unfolding a(4) empty_apartments(3) by simp
  ultimately show ?thesis using a(2,3) by auto
qed

lemma initialise_returns:
  assumes "initialise N M B g = Inr (sts, s, as, g')"
  shows "10 \<le> N \<and> N \<le> M * B \<and> s = seeded_store
         \<and> mset sts = mset [0..<N] \<and> length as = M \<and> within_capacity B as
         \<and> mset (concat (map occupants as)) = mset sts"
proof -
  have N: "10 \<le> N" using assms initialise_small[of N M B g] by (cases "10 \<le> N") simp_all
  have MB: "N \<le> M * B"
    using assms N initialise_overfull[of N M B g] by (cases "N \<le> M * B") simp_all
  from initialise_succeeds[OF N MB, of g] show ?thesis using assms N MB by auto
qed

lemma seeded_store_infected: "infected (seeded_store a) = (a < 10)"
  by (simp add: seeded_store_def infect_def StudentAgent_init_def)

lemma seeded_store_state: "state (seeded_store a) = HEALTHY"
  by (simp add: seeded_store_def infect_def StudentAgent_init_def)

section \<open>The exceptions of the days\<close>

lemma assign_to_classrooms_error:
  "assign_to_classrooms K_global sts k g = Inl e \<Longrightarrow> e = slice_step_zero"
  by (auto simp: assign_to_classrooms_def split: prod.splits if_splits)

lemma classroom_phase_error: "classroom_phase K_global K q day st = Inl e \<Longrightarrow> e = slice_step_zero"
  by (auto simp: classroom_phase_def split: if_splits sum.splits prod.splits
      dest: assign_to_classrooms_error)

lemma simulate_disease_error: "simulate_disease a day g = Inl e \<Longrightarrow> e = no_infectious_end"
  by (auto simp: simulate_disease_def split: if_splits option.splits prod.splits)

lemma simulate_each_error: "simulate_each xs day (s, g) = Inl e \<Longrightarrow> e = no_infectious_end"
proof (induction xs arbitrary: s g)
  case Nil
  then show ?case by simp
next
  case (Cons x xs)
  then show ?case
    by (auto split: sum.splits prod.splits dest: simulate_disease_error)
qed

lemma advance_agents_error: "advance_agents st = Inl e \<Longrightarrow> e = no_infectious_end"
  by (auto simp: advance_agents_def Let_def split: sum.splits prod.splits
      dest: simulate_each_error)

lemma simulate_day_error:
  "simulate_day K_global as K p q day st = Inl e \<Longrightarrow> e = slice_step_zero \<or> e = no_infectious_end"
  by (auto simp: simulate_day_def split: sum.splits
      dest: classroom_phase_error advance_agents_error)

lemma simulate_days_error:
  "simulate_days K_global as K p q days st = Inl e \<Longrightarrow>
   e = slice_step_zero \<or> e = no_infectious_end"
proof (induction days arbitrary: st)
  case Nil
  then show ?case by simp
next
  case (Cons d ds)
  then show ?case
    by (auto split: sum.splits dest: simulate_day_error)
qed

lemma run_simulation_initialise_error:
  "initialise N M B g = Inl e \<Longrightarrow> run_simulation K_global N M B K p q g = Inl e"
  by (simp add: run_simulation_def)

lemma run_simulation_error:
  assumes "run_simulation K_global N M B K p q g = Inl e"
  shows "initialise N M B g = Inl e
         \<or> e = slice_step_zero \<or> e = no_infectious_end \<or> e = list_index_out_of_range"
proof (cases "initialise N M B g")
  case (Inl e')
  with assms show ?thesis by (simp add: run_simulation_def)
next
  case (Inr r)
  obtain sts s as g' where r: "r = (sts, s, as, g')" by (cases r)
  show ?thesis
    using assms Inr r
    by (auto simp: run_simulation_def split: sum.splits if_splits dest: simulate_days_error)
qed

lemma errors_distinct:
  "cannot_choose_from_empty \<noteq> list_index_out_of_range"
  "cannot_choose_from_empty \<noteq> slice_step_zero"
  "cannot_choose_from_empty \<noteq> no_infectious_end"
  "list_index_out_of_range \<noteq> slice_step_zero"
  "list_index_out_of_range \<noteq> no_infectious_end"
  "slice_step_zero \<noteq> no_infectious_end"
  by (simp_all add: cannot_choose_from_empty_def list_index_out_of_range_def
      slice_step_zero_def no_infectious_end_def)

section \<open>Claims about the start of a run\<close>

text \<open>
  Claim C5. \<open>run_simulation\<close> has no parameter for the number of seeds or of weeks: it
  calls \<open>infect\<close> on \<open>students[0]\<close> to \<open>students[9]\<close> whatever its arguments are. With
  fewer than ten agents this loop raises the out-of-range \<open>IndexError\<close>, so nothing that
  comes before the first day completes and the run ends with that exception; with ten
  agents or more the loop marks exactly the first ten agents created, and these are the
  marked agents whenever the part before the first day completes.
\<close>

theorem seeding_marks_first_ten_or_raises:
  "(N < 10 \<longrightarrow>
      infect_first [0..<10] [0..<N] (\<lambda>_. StudentAgent_init) = Inl list_index_out_of_range
      \<and> initialise N M B g = Inl list_index_out_of_range
      \<and> run_simulation K_global N M B K p q g = Inl list_index_out_of_range)
   \<and> (10 \<le> N \<longrightarrow>
        (\<exists>s. infect_first [0..<10] [0..<N] (\<lambda>_. StudentAgent_init) = Inr s
             \<and> (\<forall>a. infected (s a) = (a < 10))))
   \<and> (initialise N M B g = Inr (sts, s0, as, g') \<longrightarrow> (\<forall>a. infected (s0 a) = (a < 10)))"
proof (intro conjI impI)
  assume "N < 10"
  then show "infect_first [0..<10] [0..<N] (\<lambda>_. StudentAgent_init) = Inl list_index_out_of_range"
    by (simp add: infect_first_ten)
next
  assume "N < 10"
  then show "initialise N M B g = Inl list_index_out_of_range" by (rule initialise_small)
next
  assume "N < 10"
  then have "initialise N M B g = Inl list_index_out_of_range" by (rule initialise_small)
  then show "run_simulation K_global N M B K p q g = Inl list_index_out_of_range"
    by (rule run_simulation_initialise_error)
next
  assume "10 \<le> N"
  then have "infect_first [0..<10] [0..<N] (\<lambda>_. StudentAgent_init) = Inr seeded_store"
    by (simp add: infect_first_ten)
  then show "\<exists>s. infect_first [0..<10] [0..<N] (\<lambda>_. StudentAgent_init) = Inr s
             \<and> (\<forall>a. infected (s a) = (a < 10))"
    by (simp add: seeded_store_infected)
next
  assume "initialise N M B g = Inr (sts, s0, as, g')"
  from initialise_returns[OF this] show "\<forall>a. infected (s0 a) = (a < 10)"
    by (simp add: seeded_store_infected)
qed

theorem seeding_marks_first_ten_or_raises_witness:
  "run_simulation 100 4 1 4 1 1 0 rng0 = Inl list_index_out_of_range
   \<and> initialise 4 1 4 rng0 = Inl list_index_out_of_range
   \<and> (\<exists>s. infect_first [0..<10] [0..<12] (\<lambda>_. StudentAgent_init) = Inr s
           \<and> (\<forall>a. infected (s a) = (a < 10)))
   \<and> (\<exists>sts s0 as g'. initialise 12 3 4 rng0 = Inr (sts, s0, as, g')
           \<and> (\<forall>a. infected (s0 a) = (a < 10)))"
proof -
  have small: "(4::nat) < 10" and large: "(10::nat) \<le> 12" and room: "(12::nat) \<le> 3 * 4"
    by simp_all
  from initialise_succeeds[OF large room, of rng0] obtain sts as g' where
    init: "initialise 12 3 4 rng0 = Inr (sts, seeded_store, as, g')" by blast
  have a: "run_simulation 100 4 1 4 1 1 0 rng0 = Inl list_index_out_of_range"
    and b: "initialise 4 1 4 rng0 = Inl list_index_out_of_range"
    using seeding_marks_first_ten_or_raises[of 4 1 4 rng0 100 1 1 0] small by blast+
  have c: "\<exists>s. infect_first [0..<10] [0..<12] (\<lambda>_. StudentAgent_init) = Inr s
           \<and> (\<forall>a. infected (s a) = (a < 10))"
    using seeding_marks_first_ten_or_raises[of 12] large by blast
  have d: "\<forall>a. infected (seeded_store a) = (a < 10)"
    using seeding_marks_first_ten_or_raises[of 12 3 4 rng0 _ _ _ _ sts seeded_store as g'] init
    by blast
  from a b c d init show ?thesis by blast
qed

text \<open>
  Claim C2, as the code has it. The notebook defines no \<open>CapacityError\<close>: when the
  apartments cannot take every student, \<open>choice\<close> is called on the empty list of
  apartments with space and raises \<open>IndexError\<close>. This happens exactly when there are at
  least ten agents and \<open>M * B < N\<close> (with fewer than ten agents the seeding loop has
  already raised), always in the part before the first day, and it is then what the run
  ends with. The part before the first day completes exactly when \<open>10 \<le> N \<le> M * B\<close>.
\<close>

theorem housing_failure_iff:
  "(initialise N M B g = Inl cannot_choose_from_empty) = (10 \<le> N \<and> M * B < N)
   \<and> (run_simulation K_global N M B K p q g = Inl cannot_choose_from_empty)
       = (10 \<le> N \<and> M * B < N)
   \<and> (\<exists>sts s0 as g'. initialise N M B g = Inr (sts, s0, as, g')) = (10 \<le> N \<and> N \<le> M * B)"
proof -
  have init: "(initialise N M B g = Inl cannot_choose_from_empty) = (10 \<le> N \<and> M * B < N)"
  proof (cases "10 \<le> N")
    case False
    then show ?thesis using initialise_small[of N M B g] by (simp add: errors_distinct[symmetric])
  next
    case True
    show ?thesis
    proof (cases "M * B < N")
      case True
      with \<open>10 \<le> N\<close> show ?thesis by (simp add: initialise_overfull)
    next
      case False
      then have "N \<le> M * B" by simp
      from initialise_succeeds[OF \<open>10 \<le> N\<close> this, of g] show ?thesis using False by auto
    qed
  qed
  have run: "(run_simulation K_global N M B K p q g = Inl cannot_choose_from_empty)
       = (initialise N M B g = Inl cannot_choose_from_empty)"
    using run_simulation_error[of K_global N M B K p q g cannot_choose_from_empty]
      run_simulation_initialise_error[of N M B g cannot_choose_from_empty K_global K p q]
    by (auto simp: errors_distinct)
  have ok: "(\<exists>sts s0 as g'. initialise N M B g = Inr (sts, s0, as, g'))
       = (10 \<le> N \<and> N \<le> M * B)"
    using initialise_succeeds[of N M B g] initialise_returns[of N M B g] by blast
  show ?thesis using init run ok by simp
qed

theorem housing_failure_iff_witness:
  "run_simulation 100 10 3 3 100 (1 / 25) (1 / 50) rng0 = Inl cannot_choose_from_empty
   \<and> initialise 10 3 3 rng0 = Inl cannot_choose_from_empty
   \<and> run_simulation 100 1000 500 3 100 (1 / 25) (1 / 50) rng0 \<noteq> Inl cannot_choose_from_empty
   \<and> (\<exists>sts s0 as g'. initialise 1000 500 3 rng0 = Inr (sts, s0, as, g'))"
  using housing_failure_iff[of 10 3 3 rng0 100 100 "1 / 25" "1 / 50"]
    housing_failure_iff[of 1000 500 3 rng0 100 100 "1 / 25" "1 / 50"]
  by simp

text \<open>
  The claim as stated fails for four agents, one apartment and three bedrooms: there
  \<open>M * B < N\<close>, but the run ends with the out-of-range \<open>IndexError\<close> of the seeding loop,
  which is not the failure of the housing.
\<close>

theorem housing_failure_counterexample:
  "(1::nat) * 3 < 4
   \<and> run_simulation 100 4 1 3 100 (1 / 25) (1 / 50) rng0 = Inl list_index_out_of_range
   \<and> run_simulation 100 4 1 3 100 (1 / 25) (1 / 50) rng0 \<noteq> Inl cannot_choose_from_empty"
proof -
  have "initialise 4 1 3 rng0 = Inl list_index_out_of_range"
    by (rule initialise_small) simp
  then have "run_simulation 100 4 1 3 100 (1 / 25) (1 / 50) rng0 = Inl list_index_out_of_range"
    by (rule run_simulation_initialise_error)
  then show ?thesis by (simp add: errors_distinct[symmetric])
qed

text \<open>
  Claim C7. Allocating any list of distinct agents to \<open>M\<close> empty apartments of capacity
  \<open>B\<close>, with \<open>M * B\<close> at least the number of agents, returns \<open>M\<close> apartments none of which
  holds more than \<open>B\<close> occupants, and the occupant lists taken together hold every agent
  exactly once. The same holds of the apartments of a run whenever the part before its
  first day completes, the agents being the \<open>N\<close> agents created.
\<close>

theorem housing_invariant:
  "(distinct xs \<and> length xs \<le> M * B \<longrightarrow>
      (\<exists>as g'. allocate xs (replicate M (Apartment_init B)) g = Inr (as, g')
         \<and> length as = M
         \<and> (\<forall>a\<in>set as. capacity a = B \<and> length (occupants a) \<le> B)
         \<and> distinct (concat (map occupants as))
         \<and> set (concat (map occupants as)) = set xs))
   \<and> (initialise N M B g = Inr (sts, s0, as0, g0) \<longrightarrow>
        N \<le> M * B
        \<and> length as0 = M
        \<and> (\<forall>a\<in>set as0. capacity a = B \<and> length (occupants a) \<le> B)
        \<and> distinct (concat (map occupants as0))
        \<and> set (concat (map occupants as0)) = {0..<N})"
proof (rule conjI; rule impI)
  assume xs: "distinct xs \<and> length xs \<le> M * B"
  let ?as = "replicate M (Apartment_init B)"
  have "housed ?as + length xs \<le> length ?as * B" using xs by (simp add: empty_apartments)
  from allocate_succeeds[OF empty_apartments(1) this, of g] obtain as g' where
    a: "allocate xs ?as g = Inr (as, g')" "length as = length ?as" "within_capacity B as"
       "mset (concat (map occupants as)) = mset (concat (map occupants ?as)) + mset xs"
    by blast
  have m: "mset (concat (map occupants as)) = mset xs"
    unfolding a(4) empty_apartments(3) by simp
  have "distinct (concat (map occupants as))"
    using m xs by (metis mset_eq_imp_distinct_iff)
  moreover have "set (concat (map occupants as)) = set xs"
    using m by (rule mset_eq_setD)
  moreover have "\<forall>a\<in>set as. capacity a = B \<and> length (occupants a) \<le> B"
    using a(3) by (simp add: within_capacity_def list_all_iff)
  ultimately show "\<exists>as g'. allocate xs ?as g = Inr (as, g')
         \<and> length as = M
         \<and> (\<forall>a\<in>set as. capacity a = B \<and> length (occupants a) \<le> B)
         \<and> distinct (concat (map occupants as))
         \<and> set (concat (map occupants as)) = set xs"
    using a(1,2) by simp
next
  assume "initialise N M B g = Inr (sts, s0, as0, g0)"
  from initialise_returns[OF this] have
    r: "N \<le> M * B" "mset sts = mset [0..<N]" "length as0 = M" "within_capacity B as0"
       "mset (concat (map occupants as0)) = mset sts"
    by simp_all
  have m: "mset (concat (map occupants as0)) = mset [0..<N]" using r(2,5) by simp
  have "distinct (concat (map occupants as0))"
    using m by (metis mset_eq_imp_distinct_iff distinct_upt)
  moreover have "set (concat (map occupants as0)) = {0..<N}"
    using mset_eq_setD[OF m] by simp
  moreover have "\<forall>a\<in>set as0. capacity a = B \<and> length (occupants a) \<le> B"
    using r(4) by (simp add: within_capacity_def list_all_iff)
  ultimately show "N \<le> M * B
        \<and> length as0 = M
        \<and> (\<forall>a\<in>set as0. capacity a = B \<and> length (occupants a) \<le> B)
        \<and> distinct (concat (map occupants as0))
        \<and> set (concat (map occupants as0)) = {0..<N}"
    using r(1,3) by simp
qed

theorem housing_invariant_witness:
  "(\<exists>as g'. allocate [3, 1, 2, 0] (replicate 2 (Apartment_init 2)) rng0 = Inr (as, g')
         \<and> length as = 2
         \<and> (\<forall>a\<in>set as. capacity a = 2 \<and> length (occupants a) \<le> 2)
         \<and> distinct (concat (map occupants as))
         \<and> set (concat (map occupants as)) = set [3, 1, 2, 0])
   \<and> (\<exists>sts s0 as0 g0. initialise 12 4 3 rng0 = Inr (sts, s0, as0, g0)
        \<and> length as0 = 4
        \<and> (\<forall>a\<in>set as0. capacity a = 3 \<and> length (occupants a) \<le> 3)
        \<and> distinct (concat (map occupants as0))
        \<and> set (concat (map occupants as0)) = {0..<12})"
proof -
  have h: "distinct [3, 1, 2, 0::nat] \<and> length [3, 1, 2, 0::nat] \<le> 2 * 2" by simp
  have large: "(10::nat) \<le> 12" and room: "(12::nat) \<le> 4 * 3" by simp_all
  from initialise_succeeds[OF large room, of rng0] obtain sts as0 g0 where
    init: "initialise 12 4 3 rng0 = Inr (sts, seeded_store, as0, g0)" by blast
  have first: "\<exists>as g'. allocate [3, 1, 2, 0] (replicate 2 (Apartment_init 2)) rng0 = Inr (as, g')
         \<and> length as = 2
         \<and> (\<forall>a\<in>set as. capacity a = 2 \<and> length (occupants a) \<le> 2)
         \<and> distinct (concat (map occupants as))
         \<and> set (concat (map occupants as)) = set [3, 1, 2, 0]"
    using housing_invariant[of "[3, 1, 2, 0]" 2 2 rng0] h by blast
  have second: "length as0 = 4
        \<and> (\<forall>a\<in>set as0. capacity a = 3 \<and> length (occupants a) \<le> 3)
        \<and> distinct (concat (map occupants as0))
        \<and> set (concat (map occupants as0)) = {0..<12}"
    using housing_invariant[of _ 4 3 rng0 12 sts seeded_store as0 g0] init by blast
  from first second init show ?thesis by blast
qed

section \<open>One day\<close>

lemma only_infects_infectious_end:
  "only_infects s s' \<Longrightarrow> infectious_end (s' a) = infectious_end (s a)"
  unfolding only_infects_def
  by (metis infect_def StudentAgent.select_convs(3) StudentAgent.surjective
      StudentAgent.update_convs(2))

lemma only_infects_ends_set: "only_infects s s' \<Longrightarrow> ends_set s \<Longrightarrow> ends_set s'"
  by (simp add: ends_set_def only_infects_state only_infects_infectious_end)

lemma randomly_infect_each_only_infects:
  "only_infects s (fst (randomly_infect_each groups prob (s, g)))"
proof (induction groups arbitrary: s g)
  case Nil
  show ?case by (simp add: only_infects_refl)
next
  case (Cons grp groups)
  obtain s1 g1 where one: "randomly_infect grp prob (s, g) = (s1, g1)"
    by (cases "randomly_infect grp prob (s, g)")
  have "only_infects s s1" using randomly_infect_only_infects[of s grp prob g] one by simp
  moreover have "only_infects s1 (fst (randomly_infect_each groups prob (s1, g1)))"
    by (rule Cons.IH)
  ultimately show ?case using one by (simp add: only_infects_trans)
qed

lemma count_mset: "length (filter P xs) = size (filter_mset P (mset xs))"
  by (metis mset_filter size_mset)

lemma count_perm: "mset xs = mset ys \<Longrightarrow> length (filter P xs) = length (filter P ys)"
  by (simp add: count_mset)

lemma count_mono: "(\<And>x. P x \<Longrightarrow> Q x) \<Longrightarrow> length (filter P xs) \<le> length (filter Q xs)"
  by (induction xs) auto

text \<open>The morning.\<close>

lemma classroom_phase_weekend:
  "day = SATURDAY \<or> day = SUNDAY \<Longrightarrow> classroom_phase K_global K q day st = Inr st"
  by (auto simp: classroom_phase_def)

lemma assign_to_classrooms_shuffle:
  "assign_to_classrooms K_global sts k g = Inr (classrooms, sts', g') \<Longrightarrow>
   sts' = fst (shuffle sts g) \<and> g' = snd (shuffle sts g)"
  by (auto simp: assign_to_classrooms_def split: prod.splits if_splits)

lemma classroom_phase_returns:
  assumes "classroom_phase K_global K q day st = Inr st1"
  shows "mset (students st1) = mset (students st) \<and> only_infects (agents st) (agents st1)
         \<and> infected_count st1 = infected_count st \<and> sick_count st1 = sick_count st
         \<and> day_number st1 = day_number st"
proof (cases "day \<notin> set [SATURDAY, SUNDAY]")
  case False
  then have "st1 = st" using assms by (simp add: classroom_phase_def)
  then show ?thesis by (simp add: only_infects_refl)
next
  case True
  from assms True obtain classrooms sts g1 where
    assign: "assign_to_classrooms K_global (students st) K (gen st) = Inr (classrooms, sts, g1)"
    and st1: "st1 = st\<lparr>students := sts,
                   agents := fst (randomly_infect_each classrooms q (agents st, g1)),
                   gen := snd (randomly_infect_each classrooms q (agents st, g1))\<rparr>"
    by (auto simp: classroom_phase_def split: sum.splits prod.splits)
  have "sts = fst (shuffle (students st) (gen st))"
    using assign_to_classrooms_shuffle[OF assign] by simp
  then have m: "mset sts = mset (students st)" by (simp add: shuffle_mset)
  show ?thesis
    unfolding st1 using m by (simp add: randomly_infect_each_only_infects)
qed

lemma classroom_phase_succeeds:
  assumes "K = 0 \<or> 0 < K_global"
  shows "\<exists>st1. classroom_phase K_global K q day st = Inr st1"
  using assms
  by (auto simp: classroom_phase_def assign_to_classrooms_def split: prod.splits)

text \<open>The evening.\<close>

lemma apartment_phase_returns:
  "students (apartment_phase as p st) = students st
   \<and> only_infects (agents st) (agents (apartment_phase as p st))
   \<and> infected_count (apartment_phase as p st) = infected_count st
   \<and> sick_count (apartment_phase as p st) = sick_count st
   \<and> day_number (apartment_phase as p st) = day_number st"
proof -
  obtain s g where r: "randomly_infect_each (map occupants as) p (agents st, gen st) = (s, g)"
    by (cases "randomly_infect_each (map occupants as) p (agents st, gen st)")
  have "only_infects (agents st) s"
    using randomly_infect_each_only_infects[of "agents st" "map occupants as" p "gen st"] r
    by simp
  then show ?thesis by (simp add: apartment_phase_def r)
qed

text \<open>The advance of every agent.\<close>

lemma simulate_disease_ends_set:
  assumes "state a = INFECTIOUS \<longrightarrow> infectious_end a \<noteq> None"
  shows "\<exists>a' g'. simulate_disease a day g = Inr (a', g')
           \<and> (state a' = INFECTIOUS \<longrightarrow> infectious_end a' \<noteq> None)"
  using assms
  by (auto simp: simulate_disease_def split: prod.splits option.splits)

lemma simulate_each_succeeds:
  "ends_set s \<Longrightarrow> \<exists>s' g'. simulate_each xs day (s, g) = Inr (s', g') \<and> ends_set s'"
proof (induction xs arbitrary: s g)
  case Nil
  then show ?case by simp
next
  case (Cons x xs)
  have "state (s x) = INFECTIOUS \<longrightarrow> infectious_end (s x) \<noteq> None"
    using Cons.prems by (simp add: ends_set_def)
  from simulate_disease_ends_set[OF this, of day g] obtain a' g1 where
    one: "simulate_disease (s x) day g = Inr (a', g1)"
    and a': "state a' = INFECTIOUS \<longrightarrow> infectious_end a' \<noteq> None"
    by blast
  have step: "simulate_each (x # xs) day (s, g) = simulate_each xs day (s(x := a'), g1)"
    using one by simp
  have "ends_set (s(x := a'))" using Cons.prems a' by (simp add: ends_set_def)
  from Cons.IH[OF this, of g1] show ?case unfolding step .
qed

lemma simulate_each_forward:
  "simulate_each xs day (s, g) = Inr (s', g') \<Longrightarrow>
   State_value (state (s a)) \<le> State_value (state (s' a))"
proof (induction xs arbitrary: s g)
  case Nil
  then show ?case by simp
next
  case (Cons x xs)
  from Cons.prems obtain a1 g1 where
    one: "simulate_disease (s x) day g = Inr (a1, g1)"
    and rest: "simulate_each xs day (s(x := a1), g1) = Inr (s', g')"
    by (auto split: sum.splits)
  have "State_value (state (s x)) \<le> State_value (state a1)"
    using simulate_disease_step[OF one] by auto
  then have "State_value (state (s a)) \<le> State_value (state ((s(x := a1)) a))" by simp
  then show ?case using Cons.IH[OF rest] by (rule order_trans)
qed

lemma State_value_sick:
  "State_value (state a) \<le> State_value (state a') \<Longrightarrow> have_been_sick a \<Longrightarrow> have_been_sick a'"
  by (cases "state a"; cases "state a'") (simp_all add: have_been_sick_def)

lemma advance_agents_returns:
  assumes "advance_agents st = Inr st'"
  shows "students st' = students st \<and> infected_count st' = infected_count st
         \<and> sick_count st' = sick_count st \<and> day_number st' = day_number st + 1
         \<and> sick_now st \<le> sick_now st'"
proof -
  from assms obtain s g where
    each: "simulate_each (students st) (day_number st + 1) (agents st, gen st) = Inr (s, g)"
    and st': "st' = st\<lparr>agents := s, gen := g, day_number := day_number st + 1\<rparr>"
    by (auto simp: advance_agents_def Let_def split: sum.splits)
  have "\<And>a. have_been_sick (agents st a) \<Longrightarrow> have_been_sick (s a)"
    using simulate_each_forward[OF each] State_value_sick by blast
  then have "sick_now st \<le> sick_now st'"
    unfolding sick_now_def st' by (simp add: count_mono)
  then show ?thesis unfolding st' by simp
qed

lemma advance_agents_succeeds:
  "ends_set (agents st) \<Longrightarrow> \<exists>st'. advance_agents st = Inr st' \<and> ends_set (agents st')"
  using simulate_each_succeeds[of "agents st" "students st" "day_number st + 1" "gen st"]
  by (auto simp: advance_agents_def Let_def)

section \<open>The two series\<close>

lemma sick_now_same:
  assumes "mset (students st1) = mset (students st)" "only_infects (agents st) (agents st1)"
  shows "sick_now st1 = sick_now st"
proof -
  have "filter (\<lambda>a. have_been_sick (agents st1 a)) (students st1)
          = filter (\<lambda>a. have_been_sick (agents st a)) (students st1)"
    using assms(2) by (simp add: only_infects_have_been_sick)
  then show ?thesis
    unfolding sick_now_def using count_perm[OF assms(1)] by simp
qed

lemma infectious_le_sick: "infectious_now st \<le> sick_now st"
  unfolding infectious_now_def sick_now_def
  by (rule count_mono) (simp add: infectious_def have_been_sick_def)

lemma record_counts_returns:
  "students (record_counts st) = students st \<and> agents (record_counts st) = agents st
   \<and> gen (record_counts st) = gen st \<and> day_number (record_counts st) = day_number st
   \<and> infected_count (record_counts st) = infected_count st @ [infectious_now st]
   \<and> sick_count (record_counts st) = sick_count st @ [sick_now st]"
  by (simp add: record_counts_def infectious_now_def sick_now_def)

lemma sick_now_record_counts: "sick_now (record_counts st) = sick_now st"
  by (simp add: sick_now_def record_counts_returns)

lemma series_ok_record_counts:
  assumes "series_ok st"
  shows "series_ok (record_counts st)"
proof -
  have s: "sorted (sick_count st)" and b: "list_all (\<lambda>c. c \<le> sick_now st) (sick_count st)"
    and d: "list_all2 (\<le>) (infected_count st) (sick_count st)"
    using assms by (simp_all add: series_ok_def)
  have "sorted (sick_count st @ [sick_now st])"
    using s b by (simp add: sorted_append list_all_iff)
  moreover have "list_all (\<lambda>c. c \<le> sick_now st) (sick_count st @ [sick_now st])"
    using b by simp
  moreover have "list_all2 (\<le>) (infected_count st @ [infectious_now st])
                   (sick_count st @ [sick_now st])"
    using d infectious_le_sick[of st] by (simp add: list_all2_appendI)
  ultimately show ?thesis
    by (simp add: series_ok_def record_counts_returns sick_now_record_counts)
qed

lemma series_ok_later:
  assumes "series_ok st" "sick_count st' = sick_count st"
    "infected_count st' = infected_count st" "sick_now st \<le> sick_now st'"
  shows "series_ok st'"
proof -
  have "list_all (\<lambda>c. c \<le> sick_now st) (sick_count st)"
    using assms(1) by (simp add: series_ok_def)
  then have "list_all (\<lambda>c. c \<le> sick_now st') (sick_count st)"
    using assms(4) by (auto simp: list_all_iff)
  then show ?thesis using assms(1,2,3) by (simp add: series_ok_def)
qed

text \<open>One day, from its parts.\<close>

lemma simulate_day_parts:
  assumes "simulate_day K_global as K p q day st = Inr st'"
  shows "\<exists>st1. classroom_phase K_global K q day st = Inr st1
           \<and> advance_agents (record_counts (apartment_phase as p st1)) = Inr st'"
  using assms by (auto simp: simulate_day_def split: sum.splits)

lemma simulate_day_series:
  assumes "simulate_day K_global as K p q day st = Inr st'" "series_ok st"
  shows "series_ok st' \<and> mset (students st') = mset (students st)
         \<and> length (sick_count st') = Suc (length (sick_count st))"
proof -
  from simulate_day_parts[OF assms(1)] obtain st1 where
    c: "classroom_phase K_global K q day st = Inr st1"
    and a: "advance_agents (record_counts (apartment_phase as p st1)) = Inr st'"
    by blast
  let ?st2 = "apartment_phase as p st1"
  let ?st3 = "record_counts ?st2"
  from classroom_phase_returns[OF c] have
    c1: "mset (students st1) = mset (students st)"
    and c2: "only_infects (agents st) (agents st1)"
    and c3: "infected_count st1 = infected_count st"
    and c4: "sick_count st1 = sick_count st"
    by blast+
  from apartment_phase_returns[of as p st1] have
    e1: "students ?st2 = students st1"
    and e2: "only_infects (agents st1) (agents ?st2)"
    and e3: "infected_count ?st2 = infected_count st1"
    and e4: "sick_count ?st2 = sick_count st1"
    by blast+
  from advance_agents_returns[OF a] have
    a1: "students st' = students ?st3"
    and a3: "infected_count st' = infected_count ?st3"
    and a4: "sick_count st' = sick_count ?st3"
    and a5: "sick_now ?st3 \<le> sick_now st'"
    by blast+
  have r1: "students ?st3 = students ?st2"
    and r4: "sick_count ?st3 = sick_count ?st2 @ [sick_now ?st2]"
    using record_counts_returns[of ?st2] by blast+
  have "sick_now st1 = sick_now st" using c1 c2 by (rule sick_now_same)
  then have "sick_now st \<le> sick_now st1" by simp
  with assms(2) c4 c3 have ok1: "series_ok st1" by (rule series_ok_later)
  have "mset (students ?st2) = mset (students st1)" using e1 by simp
  then have "sick_now ?st2 = sick_now st1" using e2 by (rule sick_now_same)
  then have "sick_now st1 \<le> sick_now ?st2" by simp
  with ok1 e4 e3 have ok2: "series_ok ?st2" by (rule series_ok_later)
  have ok3: "series_ok ?st3" using ok2 by (rule series_ok_record_counts)
  have ok: "series_ok st'" using ok3 a4 a3 a5 by (rule series_ok_later)
  have "mset (students st') = mset (students st)"
    unfolding a1 r1 e1 by (rule c1)
  moreover have "length (sick_count st') = Suc (length (sick_count st))"
    unfolding a4 r4 e4 c4 by simp
  ultimately show ?thesis using ok by simp
qed

lemma simulate_days_series:
  "simulate_days K_global as K p q days st = Inr st' \<Longrightarrow> series_ok st \<Longrightarrow>
   series_ok st' \<and> mset (students st') = mset (students st)
   \<and> length (sick_count st') = length (sick_count st) + length days"
proof (induction days arbitrary: st)
  case Nil
  then show ?case by simp
next
  case (Cons d ds)
  from Cons.prems(1) obtain st1 where
    one: "simulate_day K_global as K p q d st = Inr st1"
    and rest: "simulate_days K_global as K p q ds st1 = Inr st'"
    by (auto split: sum.splits)
  note o = simulate_day_series[OF one Cons.prems(2)]
  from Cons.IH[OF rest] o show ?case by simp
qed

lemma series_ok_start:
  "series_ok \<lparr>students = sts, agents = s, gen = g,
             infected_count = [], sick_count = [], day_number = 0\<rparr>"
  by (simp add: series_ok_def)

lemma length_calendar: "length calendar = 84"
  by (simp add: calendar_def Days_members_def length_concat sum_list_replicate)

lemma run_simulation_returns:
  assumes "run_simulation K_global N M B K p q g = Inr (total_sick, ic, icd, sc, scd)"
  shows "\<exists>sts s as g' st.
           initialise N M B g = Inr (sts, s, as, g')
           \<and> simulate_days K_global as K p q calendar
                \<lparr>students = sts, agents = s, gen = g',
                 infected_count = [], sick_count = [], day_number = 0\<rparr> = Inr st
           \<and> total_sick = last sc \<and> ic = infected_count st \<and> icd = np_diff ic
           \<and> sc = sick_count st \<and> scd = np_diff sc"
proof (cases "initialise N M B g")
  case (Inl e)
  then show ?thesis using assms by (simp add: run_simulation_def)
next
  case (Inr r)
  obtain sts s as g' where r: "r = (sts, s, as, g')" by (cases r)
  let ?st0 = "\<lparr>students = sts, agents = s, gen = g',
                 infected_count = [], sick_count = [], day_number = 0\<rparr>"
  show ?thesis
  proof (cases "simulate_days K_global as K p q calendar ?st0")
    case (Inl e)
    then show ?thesis using assms Inr r by (simp add: run_simulation_def)
  next
    case days: (Inr st)
    have "sick_count st \<noteq> []"
      using assms Inr r days by (auto simp: run_simulation_def split: if_splits)
    then have "Inr (last (sick_count st), infected_count st, np_diff (infected_count st),
                    sick_count st, np_diff (sick_count st))
               = (Inr (total_sick, ic, icd, sc, scd) :: error + _)"
      using assms Inr r days by (auto simp: run_simulation_def)
    then show ?thesis using Inr r days by auto
  qed
qed

text \<open>
  Claim C10. In every run that returns, each entry of the cumulative series is at most
  the next one, the two series have the same length (one entry for each of the 84 days),
  and each entry of the infectious series is at most the entry of the cumulative series
  for the same day.
\<close>

theorem series_nondecreasing_and_dominated:
  assumes "run_simulation K_global N M B K p q g = Inr (total_sick, ic, icd, sc, scd)"
  shows "(\<forall>i. Suc i < length sc \<longrightarrow> sc ! i \<le> sc ! Suc i)
         \<and> length ic = length sc \<and> length sc = 84
         \<and> (\<forall>i < length sc. ic ! i \<le> sc ! i)"
proof -
  from run_simulation_returns[OF assms] obtain sts s as g' st where
    days: "simulate_days K_global as K p q calendar
                \<lparr>students = sts, agents = s, gen = g',
                 infected_count = [], sick_count = [], day_number = 0\<rparr> = Inr st"
    and ic: "ic = infected_count st" and sc: "sc = sick_count st"
    by blast
  from simulate_days_series[OF days series_ok_start] have
    ok: "series_ok st" and len: "length (sick_count st) = 84"
    by (simp_all add: length_calendar)
  have sorted: "sorted sc" and dom: "list_all2 (\<le>) ic sc"
    using ok by (simp_all add: series_ok_def ic sc)
  have "\<forall>i. Suc i < length sc \<longrightarrow> sc ! i \<le> sc ! Suc i"
    using sorted by (simp add: sorted_iff_nth_Suc)
  moreover have "length ic = length sc" using dom by (rule list_all2_lengthD)
  moreover have "\<forall>i < length sc. ic ! i \<le> sc ! i"
    using dom by (simp add: list_all2_conv_all_nth)
  ultimately show ?thesis using len sc by simp
qed


section \<open>Runs that return\<close>

lemma ends_set_seeded_store: "ends_set seeded_store"
  by (simp add: ends_set_def seeded_store_state)

lemma simulate_day_succeeds:
  assumes "ends_set (agents st)" "K = 0 \<or> 0 < K_global"
  shows "\<exists>st'. simulate_day K_global as K p q day st = Inr st' \<and> ends_set (agents st')"
proof -
  from classroom_phase_succeeds[OF assms(2), of q day st] obtain st1 where
    c: "classroom_phase K_global K q day st = Inr st1" by blast
  let ?st3 = "record_counts (apartment_phase as p st1)"
  have "only_infects (agents st) (agents st1)" using classroom_phase_returns[OF c] by blast
  then have "ends_set (agents st1)" using assms(1) by (rule only_infects_ends_set)
  moreover have "only_infects (agents st1) (agents (apartment_phase as p st1))"
    using apartment_phase_returns[of as p st1] by blast
  ultimately have "ends_set (agents (apartment_phase as p st1))"
    using only_infects_ends_set by blast
  then have "ends_set (agents ?st3)" by (simp add: record_counts_returns)
  from advance_agents_succeeds[OF this] show ?thesis using c by (simp add: simulate_day_def)
qed

lemma simulate_days_succeeds:
  "ends_set (agents st) \<Longrightarrow> K = 0 \<or> 0 < K_global \<Longrightarrow>
   \<exists>st'. simulate_days K_global as K p q days st = Inr st' \<and> ends_set (agents st')"
proof (induction days arbitrary: st)
  case Nil
  then show ?case by simp
next
  case (Cons d ds)
  from simulate_day_succeeds[OF Cons.prems, of as p q d] obtain st1 where
    one: "simulate_day K_global as K p q d st = Inr st1" and e: "ends_set (agents st1)"
    by blast
  from Cons.IH[OF e Cons.prems(2)] show ?case using one by simp
qed

lemma run_simulation_succeeds:
  assumes "10 \<le> N" "N \<le> M * B" "K = 0 \<or> 0 < K_global"
  shows "\<exists>total_sick ic icd sc scd.
           run_simulation K_global N M B K p q g = Inr (total_sick, ic, icd, sc, scd)"
proof -
  from initialise_succeeds[OF assms(1,2), of g] obtain sts as g' where
    init: "initialise N M B g = Inr (sts, seeded_store, as, g')" by blast
  let ?st0 = "\<lparr>students = sts, agents = seeded_store, gen = g',
                 infected_count = [], sick_count = [], day_number = 0\<rparr>"
  have "ends_set (agents ?st0)" by (simp add: ends_set_seeded_store)
  from simulate_days_succeeds[OF this assms(3), of as p q calendar] obtain st where
    days: "simulate_days K_global as K p q calendar ?st0 = Inr st" by blast
  from simulate_days_series[OF days series_ok_start] have "length (sick_count st) = 84"
    by (simp add: length_calendar)
  then have "sick_count st \<noteq> []" by auto
  then show ?thesis using init days by (simp add: run_simulation_def)
qed

theorem series_nondecreasing_and_dominated_witness:
  "\<exists>total_sick ic icd sc scd.
     run_simulation 3 12 4 3 3 (1 / 25) (1 / 50) rng0 = Inr (total_sick, ic, icd, sc, scd)
     \<and> (\<forall>i. Suc i < length sc \<longrightarrow> sc ! i \<le> sc ! Suc i)
     \<and> length ic = length sc \<and> length sc = 84
     \<and> (\<forall>i < length sc. ic ! i \<le> sc ! i)"
proof -
  have "(10::nat) \<le> 12" "(12::nat) \<le> 4 * 3" "(3::nat) = 0 \<or> (0::nat) < 3" by simp_all
  from run_simulation_succeeds[OF this, of "1 / 25" "1 / 50" rng0]
  obtain total_sick ic icd sc scd where
    run: "run_simulation 3 12 4 3 3 (1 / 25) (1 / 50) rng0 = Inr (total_sick, ic, icd, sc, scd)"
    by blast
  from series_nondecreasing_and_dominated[OF run] run show ?thesis by blast
qed

section \<open>The first day\<close>

lemma propagate_inner_no_source:
  "\<not> infectious (s0 a1) \<Longrightarrow> propagate_inner s0 a1 xs prob (s, g) = (s, g)"
  by (induction xs) simp_all

lemma propagate_outer_no_source:
  "\<forall>a\<in>set ys. \<not> infectious (s0 a) \<Longrightarrow> propagate_outer s0 ys grp prob (s, g) = (s, g)"
  by (induction ys) (simp_all add: propagate_inner_no_source)

lemma randomly_infect_no_source:
  "\<forall>a. \<not> infectious (s a) \<Longrightarrow> randomly_infect grp prob (s, g) = (s, g)"
  by (simp add: randomly_infect_snapshot propagate_from_entry_def propagate_outer_no_source)

lemma randomly_infect_each_no_source:
  "\<forall>a. \<not> infectious (s a) \<Longrightarrow> randomly_infect_each groups prob (s, g) = (s, g)"
  by (induction groups) (simp_all add: randomly_infect_no_source)

lemma classroom_phase_weekday:
  assumes "classroom_phase K_global K q day st = Inr st1" "day \<notin> set [SATURDAY, SUNDAY]"
  shows "\<exists>classrooms sts g1.
           assign_to_classrooms K_global (students st) K (gen st) = Inr (classrooms, sts, g1)
           \<and> st1 = st\<lparr>students := sts,
                   agents := fst (randomly_infect_each classrooms q (agents st, g1)),
                   gen := snd (randomly_infect_each classrooms q (agents st, g1))\<rparr>"
  using assms by (auto simp: classroom_phase_def split: sum.splits prod.splits)

lemma classroom_phase_no_source:
  assumes "classroom_phase K_global K q day st = Inr st1" "\<forall>a. \<not> infectious (agents st a)"
  shows "agents st1 = agents st"
proof (cases "day \<notin> set [SATURDAY, SUNDAY]")
  case False
  then have "st1 = st" using assms(1) by (simp add: classroom_phase_def)
  then show ?thesis by simp
next
  case True
  from classroom_phase_weekday[OF assms(1) True] obtain classrooms sts g1 where
    st1: "st1 = st\<lparr>students := sts,
                   agents := fst (randomly_infect_each classrooms q (agents st, g1)),
                   gen := snd (randomly_infect_each classrooms q (agents st, g1))\<rparr>"
    by blast
  show ?thesis unfolding st1 using assms(2) by (simp add: randomly_infect_each_no_source)
qed

lemma apartment_phase_no_source:
  "\<forall>a. \<not> infectious (agents st a) \<Longrightarrow> agents (apartment_phase as p st) = agents st"
  by (simp add: apartment_phase_def randomly_infect_each_no_source)

text \<open>What \<open>simulate_disease\<close> does to a healthy agent.\<close>

lemma simulate_disease_pending:
  assumes "state a = HEALTHY" "infected a" "simulate_disease a day g = Inr (a', g')"
  shows "state a' = INFECTIOUS \<and> infected a'
         \<and> infectious_end a' = Some (day + fst (generate_infectious_time g))"
  using assms by (auto simp: simulate_disease_def split: prod.splits)

lemma simulate_disease_not_pending:
  assumes "state a = HEALTHY" "\<not> infected a" "simulate_disease a day g = Inr (a', g')"
  shows "a' = a"
  using assms by (simp add: simulate_disease_def)

text \<open>On a list without repetitions, every agent of the list is advanced once.\<close>

lemma simulate_each_distinct:
  "distinct xs \<Longrightarrow> simulate_each xs day (s, g) = Inr (s', g') \<Longrightarrow>
   (\<forall>a. a \<notin> set xs \<longrightarrow> s' a = s a)
   \<and> (\<forall>a\<in>set xs. \<exists>g1 g2. simulate_disease (s a) day g1 = Inr (s' a, g2))"
proof (induction xs arbitrary: s g)
  case Nil
  then show ?case by simp
next
  case (Cons x xs)
  from Cons.prems(2) obtain a1 g1 where
    one: "simulate_disease (s x) day g = Inr (a1, g1)"
    and rest: "simulate_each xs day (s(x := a1), g1) = Inr (s', g')"
    by (auto split: sum.splits)
  have d: "distinct xs" and x: "x \<notin> set xs" using Cons.prems(1) by simp_all
  from Cons.IH[OF d rest] have
    out: "\<And>a. a \<notin> set xs \<Longrightarrow> s' a = (s(x := a1)) a"
    and ins: "\<And>a. a \<in> set xs \<Longrightarrow>
                \<exists>g1 g2. simulate_disease ((s(x := a1)) a) day g1 = Inr (s' a, g2)"
    by blast+
  have sx: "s' x = a1" using out[OF x] by simp
  show ?case
  proof (intro conjI allI ballI impI)
    fix a assume "a \<notin> set (x # xs)"
    then show "s' a = s a" using out[of a] by simp
  next
    fix a assume a: "a \<in> set (x # xs)"
    show "\<exists>g1 g2. simulate_disease (s a) day g1 = Inr (s' a, g2)"
    proof (cases "a = x")
      case True
      then show ?thesis using one sx by blast
    next
      case False
      then have "a \<in> set xs" using a by simp
      from ins[OF this] show ?thesis using False by simp
    qed
  qed
qed

lemma advance_agents_parts:
  assumes "advance_agents st = Inr st'"
  shows "simulate_each (students st) (day_number st + 1) (agents st, gen st)
           = Inr (agents st', gen st')
         \<and> students st' = students st \<and> day_number st' = day_number st + 1
         \<and> infected_count st' = infected_count st \<and> sick_count st' = sick_count st"
  using assms by (auto simp: advance_agents_def Let_def split: sum.splits)

lemma mset_upt_distinct: "mset xs = mset [0..<N] \<Longrightarrow> distinct xs \<and> set xs = {0..<N}"
  by (metis atLeastLessThan_upt distinct_upt mset_eq_imp_distinct_iff mset_eq_setD)

lemma count_none: "\<forall>x\<in>set xs. \<not> P x \<Longrightarrow> length (filter P xs) = 0"
  by (induction xs) auto

text \<open>
  The first day of a run, from the state in which the part before the first day leaves
  the agents.
\<close>

lemma first_day_rounds:
  assumes "classroom_phase K_global K q day
             \<lparr>students = sts, agents = seeded_store, gen = g,
              infected_count = [], sick_count = [], day_number = 0\<rparr> = Inr st1"
  shows "agents st1 = seeded_store \<and> agents (apartment_phase as p st1) = seeded_store"
proof -
  have none: "\<forall>a. \<not> infectious (seeded_store a)"
    by (simp add: infectious_def seeded_store_state)
  have one: "agents st1 = seeded_store"
    using classroom_phase_no_source[OF assms] none by simp
  then have "agents (apartment_phase as p st1) = agents st1"
    using none by (intro apartment_phase_no_source) simp
  then show ?thesis using one by simp
qed

lemma first_day:
  assumes "mset sts = mset [0..<N]" "10 \<le> N"
    "simulate_day K_global as K p q day
       \<lparr>students = sts, agents = seeded_store, gen = g,
        infected_count = [], sick_count = [], day_number = 0\<rparr> = Inr st'"
  shows "infected_count st' = [0] \<and> sick_count st' = [0] \<and> day_number st' = 1
         \<and> mset (students st') = mset [0..<N]
         \<and> (\<forall>a. state (agents st' a) = (if a < 10 then INFECTIOUS else HEALTHY))
         \<and> (\<forall>a. infected (agents st' a) = (a < 10))
         \<and> (\<forall>a<10. \<exists>g1. infectious_end (agents st' a) = Some (1 + fst (generate_infectious_time g1)))"
proof -
  let ?st0 = "\<lparr>students = sts, agents = seeded_store, gen = g,
        infected_count = [], sick_count = [], day_number = 0\<rparr>"
  from simulate_day_parts[OF assms(3)] obtain st1 where
    c: "classroom_phase K_global K q day ?st0 = Inr st1"
    and a: "advance_agents (record_counts (apartment_phase as p st1)) = Inr st'"
    by blast
  let ?st2 = "apartment_phase as p st1"
  let ?st3 = "record_counts ?st2"
  from classroom_phase_returns[OF c] have
    c1: "mset (students st1) = mset sts" and c3: "infected_count st1 = []"
    and c4: "sick_count st1 = []" and c5: "day_number st1 = 0"
    by simp_all
  from apartment_phase_returns[of as p st1] have
    e1: "students ?st2 = students st1" and e3: "infected_count ?st2 = infected_count st1"
    and e4: "sick_count ?st2 = sick_count st1" and e5: "day_number ?st2 = day_number st1"
    by blast+
  have s2: "agents ?st2 = seeded_store" using first_day_rounds[OF c] by simp
  have healthy: "\<forall>a. state (agents ?st2 a) = HEALTHY" using s2 by (simp add: seeded_store_state)
  have "infectious_now ?st2 = 0"
    unfolding infectious_now_def using healthy by (intro count_none) (simp add: infectious_def)
  moreover have "sick_now ?st2 = 0"
    unfolding sick_now_def using healthy by (intro count_none) (simp add: have_been_sick_def)
  ultimately have r: "infected_count ?st3 = [0]" "sick_count ?st3 = [0]"
    "students ?st3 = students st1" "agents ?st3 = seeded_store" "day_number ?st3 = 0"
    using record_counts_returns[of ?st2] e1 e3 e4 e5 c3 c4 c5 s2 by simp_all
  from advance_agents_parts[OF a] have
    each: "simulate_each (students st1) 1 (seeded_store, gen ?st3) = Inr (agents st', gen st')"
    and a1: "students st' = students st1" and a5: "day_number st' = 1"
    and a3: "infected_count st' = [0]" and a4: "sick_count st' = [0]"
    using r by simp_all
  have perm: "mset (students st1) = mset [0..<N]" using c1 assms(1) by simp
  from mset_upt_distinct[OF perm] have d: "distinct (students st1)"
    and set: "set (students st1) = {0..<N}" by simp_all
  from simulate_each_distinct[OF d each] have
    out: "\<And>a. a \<notin> set (students st1) \<Longrightarrow> agents st' a = seeded_store a"
    and ins: "\<And>a. a \<in> set (students st1) \<Longrightarrow>
                \<exists>g1 g2. simulate_disease (seeded_store a) 1 g1 = Inr (agents st' a, g2)"
    by blast+
  have seeds: "state (agents st' a) = INFECTIOUS \<and> infected (agents st' a)
               \<and> (\<exists>g1. infectious_end (agents st' a) = Some (1 + fst (generate_infectious_time g1)))"
    if "a < 10" for a
  proof -
    have "a \<in> set (students st1)" using that assms(2) set by simp
    from ins[OF this] obtain g1 g2 where
      sd: "simulate_disease (seeded_store a) 1 g1 = Inr (agents st' a, g2)" by blast
    have "state (seeded_store a) = HEALTHY" "infected (seeded_store a)"
      using that by (simp_all add: seeded_store_state seeded_store_infected)
    from simulate_disease_pending[OF this sd] show ?thesis by blast
  qed
  have others: "agents st' a = StudentAgent_init" if "\<not> a < 10" for a
  proof (cases "a \<in> set (students st1)")
    case False
    from out[OF this] show ?thesis using that by (simp add: seeded_store_def)
  next
    case True
    from ins[OF this] obtain g1 g2 where
      sd: "simulate_disease (seeded_store a) 1 g1 = Inr (agents st' a, g2)" by blast
    have "state (seeded_store a) = HEALTHY" "\<not> infected (seeded_store a)"
      using that by (simp_all add: seeded_store_state seeded_store_infected)
    from simulate_disease_not_pending[OF this sd] show ?thesis
      using that by (simp add: seeded_store_def)
  qed
  have "\<forall>a. state (agents st' a) = (if a < 10 then INFECTIOUS else HEALTHY)"
    using seeds others by (simp add: StudentAgent_init_def)
  moreover have "\<forall>a. infected (agents st' a) = (a < 10)"
  proof
    fix a show "infected (agents st' a) = (a < 10)"
      using seeds[of a] others[of a] by (cases "a < 10") (simp_all add: StudentAgent_init_def)
  qed
  moreover have "\<forall>a<10. \<exists>g1. infectious_end (agents st' a)
                    = Some (1 + fst (generate_infectious_time g1))"
    using seeds by blast
  moreover have "mset (students st') = mset [0..<N]" using a1 perm by simp
  ultimately show ?thesis using a3 a4 a5 by blast
qed

text \<open>
  Claim C3, as the code has it. The seeding loop only calls \<open>infect\<close>, which sets the
  mark and leaves the state HEALTHY. So when the first day starts no agent is infectious
  and exactly the first ten agents are marked; the classroom and apartment rounds of that
  day find no source and leave every agent as it is; the first entry of both series is 0;
  and the advance that ends the first day makes exactly the ten seeds infectious, from
  the second day on.
\<close>

theorem seeds_pending_during_first_day:
  assumes "initialise N M B g = Inr (sts, s, as, g0)"
  shows "(\<forall>a. \<not> infectious (s a)) \<and> (\<forall>a. infected (s a) = (a < 10))
    \<and> (\<forall>st1. classroom_phase K_global K q day
                 \<lparr>students = sts, agents = s, gen = g0,
                  infected_count = [], sick_count = [], day_number = 0\<rparr> = Inr st1
              \<longrightarrow> agents st1 = s \<and> agents (apartment_phase as p st1) = s)
    \<and> (\<forall>st'. simulate_day K_global as K p q day
                 \<lparr>students = sts, agents = s, gen = g0,
                  infected_count = [], sick_count = [], day_number = 0\<rparr> = Inr st'
              \<longrightarrow> infected_count st' = [0] \<and> sick_count st' = [0]
                  \<and> (\<forall>a. infectious (agents st' a) = (a < 10)))"
proof -
  from initialise_returns[OF assms] have
    N: "10 \<le> N" and s: "s = seeded_store" and perm: "mset sts = mset [0..<N]"
    by simp_all
  have "\<forall>a. \<not> infectious (s a)" by (simp add: s infectious_def seeded_store_state)
  moreover have "\<forall>a. infected (s a) = (a < 10)" by (simp add: s seeded_store_infected)
  moreover have "agents st1 = s \<and> agents (apartment_phase as p st1) = s"
    if "classroom_phase K_global K q day
          \<lparr>students = sts, agents = s, gen = g0,
           infected_count = [], sick_count = [], day_number = 0\<rparr> = Inr st1" for st1
    using that first_day_rounds[of K_global K q day sts g0 st1 as p] by (simp add: s)
  moreover have "infected_count st' = [0] \<and> sick_count st' = [0]
                  \<and> (\<forall>a. infectious (agents st' a) = (a < 10))"
    if "simulate_day K_global as K p q day
          \<lparr>students = sts, agents = s, gen = g0,
           infected_count = [], sick_count = [], day_number = 0\<rparr> = Inr st'" for st'
    using first_day[OF perm N that[unfolded s]] by (simp add: infectious_def)
  ultimately show ?thesis by blast
qed

theorem seeds_pending_during_first_day_witness:
  "\<exists>sts s as g0 st1 st'.
     initialise 12 4 3 rng0 = Inr (sts, s, as, g0)
     \<and> classroom_phase 3 3 (1 / 50) MONDAY
          \<lparr>students = sts, agents = s, gen = g0,
           infected_count = [], sick_count = [], day_number = 0\<rparr> = Inr st1
     \<and> simulate_day 3 as 3 (1 / 25) (1 / 50) MONDAY
          \<lparr>students = sts, agents = s, gen = g0,
           infected_count = [], sick_count = [], day_number = 0\<rparr> = Inr st'
     \<and> \<not> infectious (s 0) \<and> infected (s 0)
     \<and> agents st1 = s \<and> agents (apartment_phase as (1 / 25) st1) = s
     \<and> infected_count st' = [0] \<and> sick_count st' = [0]
     \<and> infectious (agents st' 0) \<and> \<not> infectious (agents st' 10)"
proof -
  have large: "(10::nat) \<le> 12" and room: "(12::nat) \<le> 4 * 3"
    and k: "(3::nat) = 0 \<or> (0::nat) < 3" by simp_all
  from initialise_succeeds[OF large room, of rng0] obtain sts as g0 where
    init: "initialise 12 4 3 rng0 = Inr (sts, seeded_store, as, g0)" by blast
  let ?st0 = "\<lparr>students = sts, agents = seeded_store, gen = g0,
           infected_count = [], sick_count = [], day_number = 0\<rparr>"
  from classroom_phase_succeeds[OF k, of "1 / 50" MONDAY ?st0] obtain st1 where
    c: "classroom_phase 3 3 (1 / 50) MONDAY ?st0 = Inr st1" by blast
  have "ends_set (agents ?st0)" by (simp add: ends_set_seeded_store)
  from simulate_day_succeeds[OF this k, of as "1 / 25" "1 / 50" MONDAY] obtain st' where
    d: "simulate_day 3 as 3 (1 / 25) (1 / 50) MONDAY ?st0 = Inr st'" by blast
  note t = seeds_pending_during_first_day[OF init, of 3 3 "1 / 50" MONDAY "1 / 25"]
  have "\<not> infectious (seeded_store 0) \<and> infected (seeded_store 0)" using t by simp
  moreover have "agents st1 = seeded_store
                 \<and> agents (apartment_phase as (1 / 25) st1) = seeded_store"
    using t c by blast
  moreover have "infected_count st' = [0] \<and> sick_count st' = [0]
                 \<and> infectious (agents st' 0) \<and> \<not> infectious (agents st' 10)"
    using t d by simp
  ultimately show ?thesis using init c d by blast
qed

text \<open>
  The claim as stated fails on a run with ten agents, one apartment of ten bedrooms and
  the all-zero generator: the part before the first day completes, and the first agent
  created, which is a seed, is marked but not infectious when the first day starts.
\<close>

theorem seeds_not_infectious_counterexample:
  "\<not> isl (initialise 10 1 10 rng0)
   \<and> infected (fst (snd (projr (initialise 10 1 10 rng0))) 0)
   \<and> \<not> infectious (fst (snd (projr (initialise 10 1 10 rng0))) 0)"
proof -
  have "(10::nat) \<le> 10" "(10::nat) \<le> 1 * 10" by simp_all
  from initialise_succeeds[OF this, of rng0] obtain sts as g0 where
    init: "initialise 10 1 10 rng0 = Inr (sts, seeded_store, as, g0)" by blast
  show ?thesis
    unfolding init
    by (simp add: seeded_store_infected infectious_def seeded_store_state)
qed

section \<open>The classrooms\<close>

text \<open>
  When the module-level \<open>K\<close> has the value of the parameter, the slices are the residue
  classes of the positions, and the classrooms are what the docstring promises.
\<close>

lemma mod_shift:
  assumes "i < k" "i \<le> j"
  shows "((j - i) mod k = 0) = (j mod k = (i::nat))"
proof
  assume "(j - i) mod k = 0"
  then obtain m where "j - i = k * m" by (auto simp: mod_eq_0_iff_dvd)
  then have "j = i + k * m" using assms(2) by simp
  then show "j mod k = i" using assms(1) by simp
next
  assume "j mod k = i"
  then have "j = k * (j div k) + i" by (metis mult_div_mod_eq)
  then have "j - i = k * (j div k)" by simp
  then show "(j - i) mod k = 0" by simp
qed

lemma slice_positions:
  assumes "i < k"
  shows "filter (\<lambda>j. (j - i) mod k = 0) [i..<n] = filter (\<lambda>j. j mod k = i) [0..<n]"
proof (cases "i \<le> n")
  case True
  then have split: "[0..<n] = [0..<i] @ [i..<n]" by (metis le0 upt_add_eq_append le_add_diff_inverse)
  have low: "filter (\<lambda>j. j mod k = i) [0..<i] = []"
    using assms by (auto simp: filter_empty_conv)
  have high: "filter (\<lambda>j. j mod k = i) [i..<n] = filter (\<lambda>j. (j - i) mod k = 0) [i..<n]"
    by (rule filter_cong) (auto simp: mod_shift[OF assms])
  show ?thesis unfolding split by (simp add: low high)
next
  case False
  then have "filter (\<lambda>j. j mod k = i) [0..<n] = []"
    using assms by (auto simp: filter_empty_conv)
  then show ?thesis using False by simp
qed

lemma slice_from_step_residues:
  "i < k \<Longrightarrow>
   slice_from_step xs i k = map (\<lambda>j. xs ! j) (filter (\<lambda>j. j mod k = i) [0..<length xs])"
  by (simp add: slice_from_step_def slice_positions)

lemma residues_below:
  "mset (concat (map (\<lambda>i. filter (\<lambda>j. j mod k = i) ys) [0..<m]))
     = filter_mset (\<lambda>j. j mod k < m) (mset ys)"
proof (induction m)
  case 0
  show ?case by simp
next
  case (Suc m)
  have "filter_mset (\<lambda>j. j mod k < m) (mset ys) + filter_mset (\<lambda>j. j mod k = m) (mset ys)
          = filter_mset (\<lambda>j. j mod k < Suc m) (mset ys)"
    by (rule multiset_eqI) auto
  then show ?case using Suc.IH by simp
qed

lemma residues_partition:
  assumes "0 < k"
  shows "mset (concat (map (\<lambda>i. filter (\<lambda>j. j mod k = i) ys) [0..<k])) = mset ys"
  using assms by (simp add: residues_below)

lemma slices_partition:
  assumes "0 < k"
  shows "mset (concat (map (\<lambda>i. slice_from_step xs i k) [0..<k])) = mset xs"
proof -
  let ?f = "\<lambda>i. filter (\<lambda>j. j mod k = i) [0..<length xs]"
  have "map (\<lambda>i. slice_from_step xs i k) [0..<k] = map (\<lambda>i. map (\<lambda>j. xs ! j) (?f i)) [0..<k]"
    by (rule map_cong) (simp_all add: slice_from_step_residues)
  also have "concat \<dots> = map (\<lambda>j. xs ! j) (concat (map ?f [0..<k]))"
    by (simp add: map_concat o_def)
  finally have "mset (concat (map (\<lambda>i. slice_from_step xs i k) [0..<k]))
                  = image_mset (\<lambda>j. xs ! j) (mset (concat (map ?f [0..<k])))"
    by simp
  also have "\<dots> = image_mset (\<lambda>j. xs ! j) (mset [0..<length xs])"
    using residues_partition[OF assms] by simp
  also have "\<dots> = mset (map (\<lambda>j. xs ! j) [0..<length xs])" by simp
  also have "\<dots> = mset xs" by (simp add: map_nth)
  finally show ?thesis .
qed

lemma residue_count:
  assumes "i < k"
  shows "length (filter (\<lambda>j. j mod k = i) [0..<n]) = (n + (k - 1 - i)) div k"
proof (induction n)
  case 0
  show ?case using assms by simp
next
  case (Suc n)
  have "i \<le> n + k" using assms by simp
  from mod_shift[OF assms this] have m: "((n + k - i) mod k = 0) = (n mod k = i)" by simp
  have e: "Suc (n + (k - 1 - i)) = n + k - i" using assms by simp
  have step: "(Suc (n + (k - 1 - i)) mod k = 0) = (n mod k = i)" unfolding e by (rule m)
  have "Suc n + (k - 1 - i) = Suc (n + (k - 1 - i))" by simp
  then have "(Suc n + (k - 1 - i)) div k
               = (if n mod k = i then Suc ((n + (k - 1 - i)) div k) else (n + (k - 1 - i)) div k)"
    using step by (simp only: div_Suc)
  then show ?case using Suc.IH by simp
qed

lemma slice_length_bounds:
  assumes "i < k"
  shows "length xs div k \<le> length (slice_from_step xs i k)
         \<and> length (slice_from_step xs i k) \<le> length xs div k + 1"
proof -
  let ?n = "length xs"
  have len: "length (slice_from_step xs i k) = (?n + (k - 1 - i)) div k"
    using assms by (simp add: slice_from_step_residues residue_count)
  have "?n div k \<le> (?n + (k - 1 - i)) div k" by (rule div_le_mono) simp
  moreover have "(?n + (k - 1 - i)) div k \<le> (?n + k) div k"
    by (rule div_le_mono) simp
  moreover have "(?n + k) div k = ?n div k + 1" using assms by simp
  ultimately show ?thesis using len by simp
qed

lemma assign_to_classrooms_partition:
  assumes "0 < k"
  shows "\<exists>classrooms sts' g'.
           assign_to_classrooms k sts k g = Inr (classrooms, sts', g')
           \<and> length classrooms = k
           \<and> mset (concat classrooms) = mset sts
           \<and> (\<forall>c\<in>set classrooms. \<forall>d\<in>set classrooms. length c \<le> length d + 1)"
proof -
  obtain sts' g' where sh: "shuffle sts g = (sts', g')" by (cases "shuffle sts g")
  let ?cs = "map (\<lambda>i. slice_from_step sts' i k) [0..<k]"
  have a: "assign_to_classrooms k sts k g = Inr (?cs, sts', g')"
    using assms sh by (simp add: assign_to_classrooms_def)
  have "mset sts' = mset sts" using shuffle_mset[of sts g] sh by simp
  then have p: "mset (concat ?cs) = mset sts" using slices_partition[OF assms, of sts'] by simp
  have "length c \<le> length d + 1" if "c \<in> set ?cs" "d \<in> set ?cs" for c d
  proof -
    from that obtain i j where "i < k" "c = slice_from_step sts' i k"
      "j < k" "d = slice_from_step sts' j k" by auto
    then show ?thesis
      using slice_length_bounds[of i k sts'] slice_length_bounds[of j k sts'] by simp
  qed
  then show ?thesis using a p by simp
qed

lemma shuffle_three_rng0: "shuffle [0, 1, 2::nat] rng0 = ([1, 2, 0], rng0\<lparr>pos := 2\<rparr>)"
  by (simp add: shuffle_def swap_def randbelow_def next_raw_def rng0_def numeral_2_eq_2)

text \<open>
  Claim C1 does not hold of the code: the slices of \<open>assign_to_classrooms\<close> step by the
  module-level \<open>K\<close>, not by the parameter \<open>number_of_classrooms\<close>. With three students and
  two classrooms asked for, the notebook's \<open>K = 100\<close> gives two classrooms that leave one
  student out, and \<open>K = 1\<close> gives two classrooms that hold two of the students twice.
\<close>

theorem assign_to_classrooms_misses_agents:
  "assign_to_classrooms 100 [0, 1, 2] 2 rng0 = Inr ([[1], [2]], [1, 2, 0], rng0\<lparr>pos := 2\<rparr>)
   \<and> mset (concat [[1], [2::nat]]) \<noteq> mset [0, 1, 2]
   \<and> assign_to_classrooms 1 [0, 1, 2] 2 rng0
       = Inr ([[1, 2, 0], [2, 0]], [1, 2, 0], rng0\<lparr>pos := 2\<rparr>)
   \<and> mset (concat [[1, 2, 0], [2, 0::nat]]) \<noteq> mset [0, 1, 2]"
  unfolding assign_to_classrooms_def shuffle_three_rng0
  by (simp add: slice_from_step_def upt_conv_Cons)

section \<open>Certain infection\<close>

lemma random_py_range: "0 \<le> fst (random_py g) \<and> fst (random_py g) < 1"
proof -
  have "(of_nat (draws g (pos g) mod 2 ^ 53) :: rat) < of_nat (2 ^ 53)"
    unfolding of_nat_less_iff by simp
  then show ?thesis by (simp add: random_py_def next_raw_def)
qed

lemma bernoulli_certain: "1 \<le> prob \<Longrightarrow> fst (bernoulli prob g) = True"
  using random_py_range[of g]
  by (auto simp: bernoulli_def uniform_def split: prod.splits)

lemma bernoulli_never: "prob \<le> 0 \<Longrightarrow> fst (bernoulli prob g) = False"
  using random_py_range[of g]
  by (auto simp: bernoulli_def uniform_def split: prod.splits)

lemma py_round_bounds: "7 \<le> x \<Longrightarrow> x < 10 \<Longrightarrow> 7 \<le> py_round x \<and> py_round x \<le> 10"
proof -
  assume x: "7 \<le> x" "x < 10"
  have "7 \<le> \<lfloor>x\<rfloor>" using x(1) by (simp add: le_floor_iff)
  moreover have "\<lfloor>x\<rfloor> < 10" using x(2) by (simp add: floor_less_iff)
  ultimately show ?thesis by (auto simp: py_round_def Let_def)
qed

lemma generate_infectious_time_bounds:
  "7 \<le> fst (generate_infectious_time g) \<and> fst (generate_infectious_time g) \<le> 10"
proof -
  obtain u g' where u: "random_py g = (u, g')" by (cases "random_py g")
  have r: "0 \<le> u" "u < 1" using random_py_range[of g] u by simp_all
  have "7 \<le> 7 + (10 - 7) * u" "7 + (10 - 7) * u < 10" using r by simp_all
  from py_round_bounds[OF this] show ?thesis
    by (simp add: generate_infectious_time_def uniform_def u)
qed

lemma only_infects_infected: "only_infects s s' \<Longrightarrow> infected (s a) \<Longrightarrow> infected (s' a)"
  unfolding only_infects_def
  by (metis infect_def StudentAgent.select_convs(2) StudentAgent.surjective
      StudentAgent.update_convs(2))

lemma propagate_inner_certain:
  assumes "1 \<le> prob" "infectious (s0 a1)"
  shows "a2 \<in> set xs \<Longrightarrow> \<not> infectious (s0 a2) \<Longrightarrow>
         infected (fst (propagate_inner s0 a1 xs prob (s, g)) a2)"
proof (induction xs arbitrary: s g)
  case Nil
  then show ?case by simp
next
  case (Cons x xs)
  obtain b g' where b: "bernoulli prob g = (b, g')" by (cases "bernoulli prob g")
  have bt: "b" using bernoulli_certain[OF assms(1), of g] b by simp
  show ?case
  proof (cases "infectious (s0 x)")
    case True
    then have "propagate_inner s0 a1 (x # xs) prob (s, g) = propagate_inner s0 a1 xs prob (s, g)"
      by simp
    moreover have "a2 \<in> set xs" using Cons.prems True by auto
    ultimately show ?thesis using Cons.IH[OF _ Cons.prems(2)] by simp
  next
    case False
    let ?s1 = "s(x := infect (s x))"
    have step: "propagate_inner s0 a1 (x # xs) prob (s, g) = propagate_inner s0 a1 xs prob (?s1, g')"
      using False assms(2) b bt by simp
    show ?thesis
    proof (cases "a2 = x")
      case True
      have "infected (?s1 a2)" using True by (simp add: infect_def)
      moreover have "only_infects ?s1 (fst (propagate_inner s0 a1 xs prob (?s1, g')))"
        by (rule propagate_inner_only_infects)
      ultimately show ?thesis unfolding step by (rule only_infects_infected[rotated])
    next
      case False
      then have "a2 \<in> set xs" using Cons.prems(1) by simp
      from Cons.IH[OF this Cons.prems(2)] show ?thesis unfolding step .
    qed
  qed
qed

lemma propagate_outer_certain:
  assumes "1 \<le> prob" "a2 \<in> set grp" "\<not> infectious (s0 a2)"
  shows "\<exists>a1\<in>set ys. infectious (s0 a1) \<Longrightarrow>
         infected (fst (propagate_outer s0 ys grp prob (s, g)) a2)"
proof (induction ys arbitrary: s g)
  case Nil
  then show ?case by simp
next
  case (Cons y ys)
  obtain s1 g1 where one: "propagate_inner s0 y grp prob (s, g) = (s1, g1)"
    by (cases "propagate_inner s0 y grp prob (s, g)")
  have step: "propagate_outer s0 (y # ys) grp prob (s, g) = propagate_outer s0 ys grp prob (s1, g1)"
    using one by simp
  show ?case
  proof (cases "infectious (s0 y)")
    case True
    have "infected (s1 a2)"
      using propagate_inner_certain[OF assms(1) True assms(2,3), of s g] one by simp
    moreover have "only_infects s1 (fst (propagate_outer s0 ys grp prob (s1, g1)))"
      by (rule propagate_outer_only_infects)
    ultimately show ?thesis unfolding step by (rule only_infects_infected[rotated])
  next
    case False
    then have "\<exists>a1\<in>set ys. infectious (s0 a1)" using Cons.prems by auto
    from Cons.IH[OF this] show ?thesis unfolding step .
  qed
qed

lemma randomly_infect_certain:
  assumes "1 \<le> prob" "a1 \<in> set grp" "infectious (s a1)" "a2 \<in> set grp" "\<not> infectious (s a2)"
  shows "infected (fst (randomly_infect grp prob (s, g)) a2)"
proof -
  have "\<exists>a1\<in>set grp. infectious (s a1)" using assms(2,3) by blast
  from propagate_outer_certain[OF assms(1,4,5) this, of s g] show ?thesis
    by (simp add: randomly_infect_snapshot propagate_from_entry_def)
qed

text \<open>With a probability of zero (or less) no trial succeeds.\<close>

lemma propagate_inner_never:
  "prob \<le> 0 \<Longrightarrow> fst (propagate_inner s0 a1 xs prob (s, g)) = s"
proof (induction xs arbitrary: g)
  case Nil
  show ?case by simp
next
  case (Cons x xs)
  obtain b g' where b: "bernoulli prob g = (b, g')" by (cases "bernoulli prob g")
  have "\<not> b" using bernoulli_never[OF Cons.prems, of g] b by simp
  then show ?case using b Cons.IH[OF Cons.prems] by simp
qed

lemma propagate_outer_never:
  "prob \<le> 0 \<Longrightarrow> fst (propagate_outer s0 ys grp prob (s, g)) = s"
proof (induction ys arbitrary: g)
  case Nil
  show ?case by simp
next
  case (Cons y ys)
  obtain s1 g1 where one: "propagate_inner s0 y grp prob (s, g) = (s1, g1)"
    by (cases "propagate_inner s0 y grp prob (s, g)")
  have "s1 = s" using propagate_inner_never[OF Cons.prems, of s0 y grp s g] one by simp
  then show ?case using one Cons.IH[OF Cons.prems] by simp
qed

lemma randomly_infect_each_never:
  "prob \<le> 0 \<Longrightarrow> fst (randomly_infect_each groups prob (s, g)) = s"
proof (induction groups arbitrary: g)
  case Nil
  show ?case by simp
next
  case (Cons grp groups)
  obtain s1 g1 where one: "randomly_infect grp prob (s, g) = (s1, g1)"
    by (cases "randomly_infect grp prob (s, g)")
  have "s1 = s"
    using propagate_outer_never[OF Cons.prems, of s grp grp s g] one
    by (simp add: randomly_infect_snapshot propagate_from_entry_def)
  then show ?case using one Cons.IH[OF Cons.prems] by simp
qed

lemma classroom_phase_never:
  assumes "classroom_phase K_global K q day st = Inr st1" "q \<le> 0"
  shows "agents st1 = agents st"
proof (cases "day \<notin> set [SATURDAY, SUNDAY]")
  case False
  then have "st1 = st" using assms(1) by (simp add: classroom_phase_def)
  then show ?thesis by simp
next
  case True
  from classroom_phase_weekday[OF assms(1) True] obtain classrooms sts g1 where
    st1: "st1 = st\<lparr>students := sts,
                   agents := fst (randomly_infect_each classrooms q (agents st, g1)),
                   gen := snd (randomly_infect_each classrooms q (agents st, g1))\<rparr>"
    by blast
  show ?thesis unfolding st1 using assms(2) by (simp add: randomly_infect_each_never)
qed

section \<open>One household and certain infection\<close>

lemma count_below: "k \<le> N \<Longrightarrow> length (filter (\<lambda>a. a < k) [0..<N]) = k"
proof (induction N)
  case 0
  then show ?case by simp
next
  case (Suc N)
  show ?case
  proof (cases "k \<le> N")
    case True
    then show ?thesis using Suc.IH by simp
  next
    case False
    then have "k = Suc N" using Suc.prems by simp
    then show ?thesis by simp
  qed
qed

lemma count_all: "\<forall>x\<in>set xs. P x \<Longrightarrow> length (filter P xs) = length xs"
  by (induction xs) auto

lemma simulate_day_single_apartment:
  assumes "simulate_day K_global [apt] K p q day st = Inr st'"
  shows "\<exists>st1 s2 g2.
           classroom_phase K_global K q day st = Inr st1
           \<and> randomly_infect (occupants apt) p (agents st1, gen st1) = (s2, g2)
           \<and> advance_agents (record_counts (st1\<lparr>agents := s2, gen := g2\<rparr>)) = Inr st'"
proof -
  from simulate_day_parts[OF assms] obtain st1 where
    c: "classroom_phase K_global K q day st = Inr st1"
    and a: "advance_agents (record_counts (apartment_phase [apt] p st1)) = Inr st'"
    by blast
  obtain s2 g2 where r: "randomly_infect (occupants apt) p (agents st1, gen st1) = (s2, g2)"
    by (cases "randomly_infect (occupants apt) p (agents st1, gen st1)")
  have "apartment_phase [apt] p st1 = st1\<lparr>agents := s2, gen := g2\<rparr>"
    by (simp add: apartment_phase_def r)
  then show ?thesis using c a r by simp
qed

text \<open>
  The second day: the ten seeds are infectious, the one apartment holds every agent, and
  every trial succeeds.
\<close>

lemma second_day:
  assumes perm: "mset (students st) = mset [0..<N]" and N: "10 \<le> N"
    and states: "\<forall>a. state (agents st a) = (if a < 10 then INFECTIOUS else HEALTHY)"
    and occ: "set (occupants apt) = {0..<N}" and p: "1 \<le> p"
    and day: "simulate_day K_global [apt] K p q day st = Inr st'"
  shows "infected_count st' = infected_count st @ [10]
         \<and> sick_count st' = sick_count st @ [10]
         \<and> mset (students st') = mset [0..<N]
         \<and> (\<forall>a<N. have_been_sick (agents st' a))"
proof -
  from simulate_day_single_apartment[OF day] obtain st1 s2 g2 where
    c: "classroom_phase K_global K q day st = Inr st1"
    and r: "randomly_infect (occupants apt) p (agents st1, gen st1) = (s2, g2)"
    and a: "advance_agents (record_counts (st1\<lparr>agents := s2, gen := g2\<rparr>)) = Inr st'"
    by blast
  let ?st2 = "st1\<lparr>agents := s2, gen := g2\<rparr>"
  let ?st3 = "record_counts ?st2"
  from classroom_phase_returns[OF c] have
    c1: "mset (students st1) = mset [0..<N]"
    and c2: "only_infects (agents st) (agents st1)"
    and c3: "infected_count st1 = infected_count st"
    and c4: "sick_count st1 = sick_count st"
    using perm by simp_all
  have states1: "state (agents st1 a) = (if a < 10 then INFECTIOUS else HEALTHY)" for a
    using only_infects_state[OF c2, of a] states by simp
  have o2: "only_infects (agents st1) s2"
    using randomly_infect_only_infects[of "agents st1" "occupants apt" p "gen st1"] r by simp
  have states2: "state (s2 a) = (if a < 10 then INFECTIOUS else HEALTHY)" for a
    using only_infects_state[OF o2, of a] states1 by simp
  have marked: "infected (s2 a)" if "10 \<le> a" "a < N" for a
  proof -
    have "0 \<in> set (occupants apt)" "a \<in> set (occupants apt)" using occ N that by simp_all
    moreover have "infectious (agents st1 0)" "\<not> infectious (agents st1 a)"
      using states1 that by (simp_all add: infectious_def)
    ultimately have "infected (fst (randomly_infect (occupants apt) p (agents st1, gen st1)) a)"
      using p by (intro randomly_infect_certain[of p 0]) simp_all
    then show ?thesis using r by simp
  qed
  from mset_upt_distinct[OF c1] have d: "distinct (students st1)"
    and set: "set (students st1) = {0..<N}" by simp_all
  have "infectious_now ?st2 = length (filter (\<lambda>a. a < 10) (students st1))"
    by (simp add: infectious_now_def infectious_def states2)
  also have "\<dots> = length (filter (\<lambda>a. a < 10) [0..<N])" using c1 by (rule count_perm)
  also have "\<dots> = 10" using N by (rule count_below)
  finally have inf: "infectious_now ?st2 = 10" .
  have "sick_now ?st2 = length (filter (\<lambda>a. a < 10) (students st1))"
    by (simp add: sick_now_def have_been_sick_def states2)
  also have "\<dots> = length (filter (\<lambda>a. a < 10) [0..<N])" using c1 by (rule count_perm)
  also have "\<dots> = 10" using N by (rule count_below)
  finally have sick: "sick_now ?st2 = 10" .
  have r3: "infected_count ?st3 = infected_count st @ [10]"
    "sick_count ?st3 = sick_count st @ [10]"
    "students ?st3 = students st1" "agents ?st3 = s2"
    using record_counts_returns[of ?st2] inf sick c3 c4 by simp_all
  from advance_agents_parts[OF a] have
    each: "simulate_each (students st1) (day_number ?st3 + 1) (s2, gen ?st3)
             = Inr (agents st', gen st')"
    and a1: "students st' = students st1"
    and a3: "infected_count st' = infected_count st @ [10]"
    and a4: "sick_count st' = sick_count st @ [10]"
    using r3 by simp_all
  have sick': "have_been_sick (agents st' a)" if "a < N" for a
  proof (cases "a < 10")
    case True
    then have "have_been_sick (s2 a)" by (simp add: have_been_sick_def states2)
    then show ?thesis
      using simulate_each_forward[OF each, of a] State_value_sick by blast
  next
    case False
    then have "a \<in> set (students st1)" using that set by simp
    with simulate_each_distinct[OF d each] obtain g1 g3 where
      sd: "simulate_disease (s2 a) (day_number ?st3 + 1) g1 = Inr (agents st' a, g3)"
      by blast
    have "state (s2 a) = HEALTHY" "infected (s2 a)"
      using False that states2 marked by simp_all
    from simulate_disease_pending[OF this sd] show ?thesis by (simp add: have_been_sick_def)
  qed
  show ?thesis using a3 a4 a1 c1 sick' by simp
qed

text \<open>Once every agent has been sick, every later day records all of them.\<close>

lemma later_day:
  assumes perm: "mset (students st) = mset [0..<N]"
    and all: "\<forall>a<N. have_been_sick (agents st a)"
    and day: "simulate_day K_global as K p q day st = Inr st'"
  shows "sick_count st' = sick_count st @ [N]
         \<and> mset (students st') = mset [0..<N]
         \<and> (\<forall>a<N. have_been_sick (agents st' a))"
proof -
  from simulate_day_parts[OF day] obtain st1 where
    c: "classroom_phase K_global K q day st = Inr st1"
    and a: "advance_agents (record_counts (apartment_phase as p st1)) = Inr st'"
    by blast
  let ?st2 = "apartment_phase as p st1"
  let ?st3 = "record_counts ?st2"
  from classroom_phase_returns[OF c] have
    c1: "mset (students st1) = mset [0..<N]"
    and c2: "only_infects (agents st) (agents st1)"
    and c4: "sick_count st1 = sick_count st"
    using perm by simp_all
  from apartment_phase_returns[of as p st1] have
    e1: "students ?st2 = students st1"
    and e2: "only_infects (agents st1) (agents ?st2)"
    and e4: "sick_count ?st2 = sick_count st1"
    by blast+
  have all2: "have_been_sick (agents ?st2 a)" if "a < N" for a
    using all that only_infects_have_been_sick[OF c2, of a]
      only_infects_have_been_sick[OF e2, of a] by simp
  from mset_upt_distinct[OF c1] have set: "set (students st1) = {0..<N}" by simp
  have "length (students st1) = N" using c1 by (metis size_mset length_upt diff_zero)
  moreover have "sick_now ?st2 = length (students ?st2)"
    unfolding sick_now_def using all2 set e1 by (intro count_all) simp
  ultimately have sick: "sick_now ?st2 = N" using e1 by simp
  have r3: "sick_count ?st3 = sick_count st @ [N]" "students ?st3 = students st1"
    "agents ?st3 = agents ?st2"
    using record_counts_returns[of ?st2] sick e1 e4 c4 by simp_all
  from advance_agents_parts[OF a] have
    each: "simulate_each (students ?st3) (day_number ?st3 + 1) (agents ?st3, gen ?st3)
             = Inr (agents st', gen st')"
    and a1: "students st' = students st1"
    and a4: "sick_count st' = sick_count st @ [N]"
    using r3 by simp_all
  have "have_been_sick (agents st' a)" if "a < N" for a
    using simulate_each_forward[OF each, of a] State_value_sick all2[OF that] r3(3) by metis
  then show ?thesis using a4 a1 c1 by simp
qed

lemma later_days:
  "mset (students st) = mset [0..<N] \<Longrightarrow> \<forall>a<N. have_been_sick (agents st a) \<Longrightarrow>
   simulate_days K_global as K p q days st = Inr st' \<Longrightarrow>
   sick_count st' = sick_count st @ replicate (length days) N"
proof (induction days arbitrary: st)
  case Nil
  then show ?case by simp
next
  case (Cons d ds)
  from Cons.prems(3) obtain st1 where
    one: "simulate_day K_global as K p q d st = Inr st1"
    and rest: "simulate_days K_global as K p q ds st1 = Inr st'"
    by (auto split: sum.splits)
  from later_day[OF Cons.prems(1,2) one] have
    l: "sick_count st1 = sick_count st @ [N]" "mset (students st1) = mset [0..<N]"
       "\<forall>a<N. have_been_sick (agents st1 a)"
    by simp_all
  from Cons.IH[OF l(2,3) rest] show ?case using l(1) by (simp add: replicate_append_same)
qed

lemma calendar_first_two: "calendar = MONDAY # TUESDAY # drop 2 calendar"
proof -
  have "(12::nat) = Suc 11" by simp
  then have "calendar = Days_members @ concat (replicate 11 Days_members)"
    unfolding calendar_def by (simp only: replicate_Suc concat.simps)
  then obtain rest where e: "calendar = MONDAY # TUESDAY # rest"
    by (simp add: Days_members_def)
  have "drop 2 calendar = rest" by (subst e) simp
  with e show ?thesis by simp
qed

text \<open>
  Claim C4, as the code has it. \<open>run_simulation\<close> has no parameters \<open>weeks\<close> and
  \<open>initial_infected\<close>: it always seeds ten agents and runs for twelve weeks. With ten
  agents or more in one apartment that has room for all of them, and a probability \<open>p\<close>
  of (at least) one, every run returns, whatever the random source, \<open>q\<close> and the
  classrooms are: the cumulative series starts with 0 (on the first day the seeds are only
  marked), then 10 (the seeds), and is \<open>N\<close> from the third entry on, all other housemates
  having been marked on the second evening; the total is \<open>N\<close>. With \<open>q\<close> zero (or less) no
  classroom round changes any agent.
\<close>

theorem single_household_certain_infection:
  assumes "10 \<le> N" "N \<le> B" "1 \<le> p" "K = 0 \<or> 0 < K_global"
  shows "(\<exists>ic icd sc scd.
            run_simulation K_global N 1 B K p q g = Inr (N, ic, icd, sc, scd)
            \<and> sc = [0, 10] @ replicate 82 N)
         \<and> (\<forall>day st st1. q \<le> 0 \<and> classroom_phase K_global K q day st = Inr st1
                \<longrightarrow> agents st1 = agents st)"
proof 
  have room: "N \<le> 1 * B" using assms(2) by simp
  from run_simulation_succeeds[OF assms(1) room assms(4), of p q g]
  obtain total_sick ic icd sc scd where
    run: "run_simulation K_global N 1 B K p q g = Inr (total_sick, ic, icd, sc, scd)"
    by blast
  from run_simulation_returns[OF run] obtain sts s as g' st where
    init: "initialise N 1 B g = Inr (sts, s, as, g')"
    and days: "simulate_days K_global as K p q calendar
                \<lparr>students = sts, agents = s, gen = g',
                 infected_count = [], sick_count = [], day_number = 0\<rparr> = Inr st"
    and total: "total_sick = last sc" and sc: "sc = sick_count st"
    by blast
  from initialise_returns[OF init] have
    s: "s = seeded_store" and perm: "mset sts = mset [0..<N]" and one: "length as = 1"
    and occ: "mset (concat (map occupants as)) = mset sts"
    by simp_all
  from one obtain apt where as: "as = [apt]" by (cases as) auto
  have "mset (occupants apt) = mset [0..<N]" using occ perm as by simp
  from mset_upt_distinct[OF this] have occ': "set (occupants apt) = {0..<N}" by simp
  let ?st0 = "\<lparr>students = sts, agents = seeded_store, gen = g',
                 infected_count = [], sick_count = [], day_number = 0\<rparr>"
  have "simulate_days K_global [apt] K p q (MONDAY # TUESDAY # drop 2 calendar) ?st0 = Inr st"
    using days calendar_first_two s as by simp
  then obtain st1 st2 where
    d1: "simulate_day K_global [apt] K p q MONDAY ?st0 = Inr st1"
    and d2: "simulate_day K_global [apt] K p q TUESDAY st1 = Inr st2"
    and rest: "simulate_days K_global [apt] K p q (drop 2 calendar) st2 = Inr st"
    by (auto split: sum.splits)
  from first_day[OF perm assms(1) d1] have
    f: "sick_count st1 = [0]" "mset (students st1) = mset [0..<N]"
       "\<forall>a. state (agents st1 a) = (if a < 10 then INFECTIOUS else HEALTHY)"
    by simp_all
  from second_day[OF f(2) assms(1) f(3) occ' assms(3) d2] have
    t: "sick_count st2 = [0, 10]" "mset (students st2) = mset [0..<N]"
       "\<forall>a<N. have_been_sick (agents st2 a)"
    using f(1) by simp_all
  from later_days[OF t(2,3) rest] have "sick_count st = [0, 10] @ replicate 82 N"
    using t(1) by (simp add: length_calendar)
  then have series: "sc = [0, 10] @ replicate 82 N" using sc by simp
  then have "last sc = N" by simp
  then show "\<exists>ic icd sc scd.
            run_simulation K_global N 1 B K p q g = Inr (N, ic, icd, sc, scd)
            \<and> sc = [0, 10] @ replicate 82 N"
    using run total series by blast
next
  show "\<forall>day st st1. q \<le> 0 \<and> classroom_phase K_global K q day st = Inr st1
                \<longrightarrow> agents st1 = agents st"
    using classroom_phase_never by blast
qed

theorem single_household_certain_infection_witness:
  "\<exists>ic icd sc scd.
     run_simulation 100 13 1 13 1 1 0 rng0 = Inr (13, ic, icd, sc, scd)
     \<and> sc = [0, 10] @ replicate 82 13 \<and> sc ! 1 = 10 \<and> sc ! 2 = 13
     \<and> (\<exists>st1. classroom_phase 100 1 0 MONDAY
                 \<lparr>students = [0, 1], agents = seeded_store, gen = rng0,
                  infected_count = [], sick_count = [], day_number = 0\<rparr> = Inr st1
               \<and> agents st1 = seeded_store)"
proof -
  let ?st0 = "\<lparr>students = [0, 1], agents = seeded_store, gen = rng0,
                  infected_count = [], sick_count = [], day_number = 0\<rparr>"
  have k: "(1::nat) = 0 \<or> (0::nat) < 100" by simp
  from classroom_phase_succeeds[OF k, of 0 MONDAY ?st0] obtain st1 where
    c: "classroom_phase 100 1 0 MONDAY ?st0 = Inr st1" by blast
  have "(10::nat) \<le> 13" "(13::nat) \<le> 13" "(1::rat) \<le> 1" "(1::nat) = 0 \<or> (0::nat) < 100"
    by simp_all
  note t = single_household_certain_infection[OF this, of 0 rng0]
  from t obtain ic icd sc scd where
    run: "run_simulation 100 13 1 13 1 1 0 rng0 = Inr (13, ic, icd, sc, scd)"
    and sc: "sc = [0, 10] @ replicate 82 13"
    by blast
  have "agents st1 = agents ?st0" using t c by blast
  then have quiet: "agents st1 = seeded_store" by simp
  have two: "replicate 82 (13::nat) = 13 # replicate 81 13"
    by (simp add: numeral_eq_Suc)
  have "sc ! 1 = 10 \<and> sc ! 2 = 13" unfolding sc two by simp
  then show ?thesis using run sc c quiet by blast
qed

text \<open>
  The claim as stated fails: with four agents the seeding loop raises on \<open>students[4]\<close>,
  so the run does not succeed and returns no series.
\<close>

theorem four_agents_counterexample:
  "run_simulation 100 4 1 4 1 1 0 rng0 = Inl list_index_out_of_range"
proof -
  have "initialise 4 1 4 rng0 = Inl list_index_out_of_range"
    by (rule initialise_small) simp
  then show ?thesis by (rule run_simulation_initialise_error)
qed

section \<open>The random source is the only source of variation\<close>


lemma same_future_refl: "same_future g g"
  by (simp add: same_future_def)






























end
